theory Spec2Isabelle
  imports Main "HOL-Library.Sublist"
begin

section \<open>Python string primitives used by project1.py\<close>

text \<open>
  A Python \<open>str\<close> is modelled as a \<open>string\<close>, one \<open>char\<close> per code point (code points
  below 256). Positions are Python integers (\<open>int\<close>): \<open>str.find\<close> answers \<open>-1\<close> when there
  is no occurrence, and the program does arithmetic on that answer and slices with it.
\<close>

text \<open>The first index at which \<open>sub\<close> occurs in \<open>s\<close>, scanning from the left.\<close>

fun index_of :: "string \<Rightarrow> string \<Rightarrow> nat option" where
  "index_of sub [] = (if sub = [] then Some 0 else None)"
| "index_of sub (c # cs) =
     (if prefix sub (c # cs) then Some 0 else map_option Suc (index_of sub cs))"

text \<open>How Python turns a slice bound into an offset of a sequence of length \<open>n\<close>:
  a negative bound counts from the end, and every bound is clipped to \<open>0..n\<close>.\<close>

definition clamp_index :: "nat \<Rightarrow> int \<Rightarrow> nat" where
  "clamp_index n i = (if i < 0 then nat (max 0 (i + int n)) else min (nat i) n)"

text \<open>\<open>s.find(sub, start)\<close>\<close>

definition str_find :: "string \<Rightarrow> string \<Rightarrow> int \<Rightarrow> int" where
  "str_find s sub start =
     (if int (length s) < start then - 1
      else (let st = clamp_index (length s) start in
            case index_of sub (drop st s) of
              None \<Rightarrow> - 1
            | Some i \<Rightarrow> int (st + i)))"

text \<open>\<open>sub in s\<close>\<close>

definition contains :: "string \<Rightarrow> string \<Rightarrow> bool" where
  "contains s sub = (index_of sub s \<noteq> None)"

text \<open>\<open>s[a:b]\<close>, \<open>s[:b]\<close> and \<open>s[a:]\<close>\<close>

definition slice :: "string \<Rightarrow> int \<Rightarrow> int \<Rightarrow> string" where
  "slice s a b =
     (let i = clamp_index (length s) a; j = clamp_index (length s) b
      in take (j - i) (drop i s))"

definition slice_to :: "string \<Rightarrow> int \<Rightarrow> string" where
  "slice_to s b = take (clamp_index (length s) b) s"

definition slice_from :: "string \<Rightarrow> int \<Rightarrow> string" where
  "slice_from s a = drop (clamp_index (length s) a) s"

text \<open>\<open>str.isspace\<close> on one character: the white space of Python among the code points
  below 256.\<close>

definition isspace :: "char \<Rightarrow> bool" where
  "isspace c = (c \<in> set [CHR 0x09, CHR 0x0A, CHR 0x0B, CHR 0x0C, CHR 0x0D,
                          CHR 0x1C, CHR 0x1D, CHR 0x1E, CHR 0x1F, CHR 0x20,
                          CHR 0x85, CHR 0xA0])"

text \<open>\<open>s.strip()\<close>\<close>

definition str_strip :: "string \<Rightarrow> string" where
  "str_strip s = rev (dropWhile isspace (rev (dropWhile isspace s)))"

text \<open>\<open>s.replace(old, new)\<close> for a one-character \<open>old\<close>, the only way the program calls it.\<close>

definition str_replace :: "string \<Rightarrow> char \<Rightarrow> string \<Rightarrow> string" where
  "str_replace s old new = concat (map (\<lambda>c. if c = old then new else [c]) s)"

text \<open>\<open>sep.join(xs)\<close>\<close>

fun str_join :: "string \<Rightarrow> string list \<Rightarrow> string" where
  "str_join sep [] = []"
| "str_join sep [x] = x"
| "str_join sep (x # y # ys) = x @ sep @ str_join sep (y # ys)"

section \<open>The cell cleaner: \<open>clean_html\<close>\<close>

text \<open>
  The \<open>while\<close> loop of \<open>clean_html\<close>. Nothing is assumed about its termination: the value
  \<open>None\<close> stands for a loop that never returns.
\<close>

partial_function (option) clean_loop :: "string \<Rightarrow> string option" where
  "clean_loop text =
     (if contains text ''<'' \<and> contains text ''>'' then
        (let lt = str_find text ''<'' 0;
             gt = str_find text ''>'' lt
         in if lt = - 1 \<or> gt = - 1 then Some text
            else clean_loop (slice_to text lt @ slice_from text (gt + 1)))
      else Some text)"

declare clean_loop.simps [code]

definition clean_html :: "string \<Rightarrow> string option" where
  "clean_html text =
     map_option (\<lambda>t. str_strip (str_replace (str_replace t (CHR 0x0A) '' '') (CHR 0x0D) '' ''))
       (clean_loop text)"


text \<open>
  The cleaning loop in the words of the specification, as one pass from left to right:
  at a \<open><\<close>, everything up to and including the next \<open>>\<close> is dropped; a \<open><\<close> with no
  \<open>>\<close> after it ends the pass and the rest stays as it is.
\<close>

function strip_spans :: "string \<Rightarrow> string" where
  "strip_spans [] = []"
| "strip_spans (c # cs) =
     (if c = CHR ''<'' then
        (case dropWhile (\<lambda>x. x \<noteq> CHR ''>'') cs of
           [] \<Rightarrow> c # cs
         | g # rest \<Rightarrow> strip_spans rest)
      else c # strip_spans cs)"
  by pat_completeness auto
termination
proof (relation "measure length")
  fix c :: char and cs g rest
  assume "dropWhile (\<lambda>x. x \<noteq> CHR ''>'') cs = g # rest"
  then have "length (g # rest) \<le> length cs"
    by (metis length_dropWhile_le)
  then show "(rest, c # cs) \<in> measure length" by simp
qed auto

section \<open>The row and cell parser: \<open>parse_table\<close>\<close>

text \<open>The inner \<open>while\<close> loop of \<open>parse_table\<close>, over the cells of one row.\<close>

partial_function (option) parse_cells :: "string \<Rightarrow> int \<Rightarrow> string list \<Rightarrow> string list option" where
  "parse_cells row_html cell_pos cells =
     (let td_start = str_find row_html ''<td'' cell_pos;
          th_start = str_find row_html ''<th'' cell_pos
      in if td_start = - 1 \<and> th_start = - 1 then Some cells
         else if td_start \<noteq> - 1 \<and> (td_start < th_start \<or> th_start = - 1) then
           (let cell_start = str_find row_html ''>'' td_start + 1;
                cell_end = str_find row_html ''</td>'' cell_start;
                cell = str_strip (slice row_html cell_start cell_end)
            in case clean_html cell of
                 None \<Rightarrow> None
               | Some cleaned \<Rightarrow> parse_cells row_html (cell_end + 5) (cells @ [cleaned]))
         else
           (let cell_start = str_find row_html ''>'' th_start + 1;
                cell_end = str_find row_html ''</th>'' cell_start;
                cell = str_strip (slice row_html cell_start cell_end)
            in case clean_html cell of
                 None \<Rightarrow> None
               | Some cleaned \<Rightarrow> parse_cells row_html (cell_end + 5) (cells @ [cleaned])))"

declare parse_cells.simps [code]

text \<open>The outer \<open>while\<close> loop of \<open>parse_table\<close>, over the rows.\<close>

partial_function (option) parse_rows ::
  "string \<Rightarrow> int \<Rightarrow> string list list \<Rightarrow> string list list option" where
  "parse_rows table_html pos rows =
     (let row_start = str_find table_html ''<tr'' pos
      in if row_start = - 1 then Some rows
         else
           (let row_end = str_find table_html ''</tr>'' row_start
            in if row_end = - 1 then Some rows
               else
                 (let row_html = slice table_html row_start row_end
                  in case parse_cells row_html 0 [] of
                       None \<Rightarrow> None
                     | Some cells \<Rightarrow> parse_rows table_html (row_end + 5) (rows @ [cells]))))"

declare parse_rows.simps [code]

definition parse_table :: "string \<Rightarrow> string list list option" where
  "parse_table table_html = parse_rows table_html 0 []"

section \<open>The table extractor: \<open>extract_tables\<close>\<close>

partial_function (option) extract_loop :: "string \<Rightarrow> int \<Rightarrow> string list \<Rightarrow> string list option" where
  "extract_loop html pos tables =
     (let start = str_find html ''<table'' pos
      in if start = - 1 then Some tables
         else
           (let end = str_find html ''</table>'' start
            in if end = - 1 then Some tables
               else extract_loop html (end + 8) (tables @ [slice html start (end + 8)])))"

declare extract_loop.simps [code]

definition extract_tables :: "string \<Rightarrow> string list option" where
  "extract_tables html = extract_loop html 0 []"

section \<open>The CSV writer: \<open>save_csv\<close>\<close>

text \<open>
  What the program does to the outside world: the files it writes (each \<open>open(name, "w")\<close>
  with everything written before the file is closed, in the order of the writes) and the
  lines it prints.
\<close>

record world =
  writes :: "(string \<times> string) list"
  printed :: "string list"

definition write_file :: "string \<Rightarrow> string \<Rightarrow> world \<Rightarrow> world" where
  "write_file name content w = w\<lparr>writes := writes w @ [(name, content)]\<rparr>"

definition print :: "string \<Rightarrow> world \<Rightarrow> world" where
  "print line w = w\<lparr>printed := printed w @ [line]\<rparr>"

text \<open>\<open>'"{}"'.format(cell.replace('"', '""'))\<close>; \<open>CHR 0x22\<close> is the double quote.\<close>

definition csv_field :: "string \<Rightarrow> string" where
  "csv_field cell = [CHR 0x22] @ str_replace cell (CHR 0x22) [CHR 0x22, CHR 0x22] @ [CHR 0x22]"

definition csv_line :: "string list \<Rightarrow> string" where
  "csv_line row = str_join '','' (map csv_field row)"

definition csv_text :: "string list list \<Rightarrow> string" where
  "csv_text rows = concat (map (\<lambda>row. csv_line row @ [CHR 0x0A]) rows)"

definition save_csv :: "string list list \<Rightarrow> string \<Rightarrow> world \<Rightarrow> world" where
  "save_csv rows filename w =
     print (''CSV saved as '' @ filename) (write_file filename (csv_text rows) w)"

text \<open>
  Reading one field back, in the words of the specification: strip the outer quotes and
  collapse every doubled quote. \<open>None\<close> when the text is not a quoted field.
\<close>

fun collapse_quotes :: "string \<Rightarrow> string option" where
  "collapse_quotes [] = Some []"
| "collapse_quotes (c # cs) =
     (if c = CHR 0x22 then
        (case cs of
           [] \<Rightarrow> None
         | d # ds \<Rightarrow> if d = CHR 0x22 then map_option ((#) (CHR 0x22)) (collapse_quotes ds) else None)
      else map_option ((#) c) (collapse_quotes cs))"

definition csv_unescape :: "string \<Rightarrow> string option" where
  "csv_unescape field =
     (if 2 \<le> length field \<and> hd field = CHR 0x22 \<and> last field = CHR 0x22
      then collapse_quotes (butlast (tl field))
      else None)"

section \<open>The program: \<open>fetch_html\<close> and \<open>main\<close>\<close>

text \<open>
  The surroundings of one run: what a GET of a URL answers (\<open>None\<close> when the request or
  the decoding raises), which paths exist and what reading a file gives (\<open>None\<close> when it
  raises).
\<close>

record env =
  url_get :: "string \<Rightarrow> string option"
  path_exists :: "string \<Rightarrow> bool"
  file_read :: "string \<Rightarrow> string option"

text \<open>How a run ends: it returns, it calls \<open>sys.exit\<close> with a status, or an exception
  escapes.\<close>

datatype outcome = Returned | SysExit int | Uncaught

definition fetch_html :: "env \<Rightarrow> string \<Rightarrow> world \<Rightarrow> (outcome + string) \<times> world" where
  "fetch_html e source w =
     (if prefix ''http://'' source \<or> prefix ''https://'' source then
        (case url_get e source of
           None \<Rightarrow> (Inl Uncaught, w)
         | Some html \<Rightarrow> (Inr html, print ''HTML saved as page.html'' (write_file ''page.html'' html w)))
      else if path_exists e source then
        (case file_read e source of
           None \<Rightarrow> (Inl Uncaught, w)
         | Some html \<Rightarrow> (Inr html, w))
      else (Inl (SysExit 1), print ''Error: source not found.'' w))"

text \<open>\<open>str(i)\<close> for the table index in \<open>f"output_{i}.csv"\<close>.\<close>

fun str_nat :: "nat \<Rightarrow> string" where
  "str_nat n =
     (if n < 10 then [''0123456789'' ! n]
      else str_nat (n div 10) @ [''0123456789'' ! (n mod 10)])"

declare str_nat.simps [simp del]

text \<open>The \<open>for\<close> loop of \<open>main\<close> over \<open>enumerate(tables, start=1)\<close>.\<close>

fun main_loop :: "(nat \<times> string) list \<Rightarrow> world \<Rightarrow> world option" where
  "main_loop [] w = Some w"
| "main_loop ((i, table_html) # rest) w =
     (case parse_table table_html of
        None \<Rightarrow> None
      | Some rows \<Rightarrow>
          if rows \<noteq> [] then
            (let filename = ''output_'' @ str_nat i @ ''.csv''
             in main_loop rest (save_csv rows filename w))
          else main_loop rest w)"

definition usage :: string where
  "usage = ''Usage: python read_html_tables_save_html.py <URL|FILENAME>''"

text \<open>\<open>main\<close>, with \<open>sys.argv\<close> as \<open>argv\<close>. \<open>None\<close>: the run never ends.\<close>

definition main :: "env \<Rightarrow> string list \<Rightarrow> world \<Rightarrow> (outcome \<times> world) option" where
  "main e argv w =
     (if length argv \<noteq> 2 then Some (SysExit 1, print usage w)
      else
        (let source = argv ! 1
         in case fetch_html e source w of
              (Inl stop, w1) \<Rightarrow> Some (stop, w1)
            | (Inr html, w1) \<Rightarrow>
                (case extract_tables html of
                   None \<Rightarrow> None
                 | Some tables \<Rightarrow>
                     if tables = [] then Some (SysExit 1, print ''No tables found in the HTML.'' w1)
                     else map_option (Pair Returned) (main_loop (enumerate 1 tables) w1))))"

section \<open>Well-formed documents with one table\<close>

text \<open>
  What the specification calls a well-formed input with one table, spelled out: the document
  is some text, the table, some text; the table is its rows, each after a gap, and
  \<open></table>\<close>; a row is its cells, each after a gap, some text and \<open></tr>\<close>; a cell is
  \<open><td\<close> or \<open><th\<close>, attributes, \<open>>\<close>, the content and the closing tag of its kind. The opening
  \<open><table\<close> is the start of the first gap of the table, and the \<open><tr\<close> of a row the start of
  the row's text. No marker occurs where the scan would take it for another one.
\<close>

record cell_src =
  c_before :: string
  c_header :: bool
  c_attrs :: string
  c_content :: string

record row_src =
  r_gap :: string
  r_cells :: "cell_src list"
  r_tail :: string

definition open_tag :: "cell_src \<Rightarrow> string" where
  "open_tag c = (if c_header c then ''<th'' else ''<td'')"

definition close_tag :: "cell_src \<Rightarrow> string" where
  "close_tag c = (if c_header c then ''</th>'' else ''</td>'')"

definition render_cell :: "cell_src \<Rightarrow> string" where
  "render_cell c = c_before c @ open_tag c @ c_attrs c @ ''>'' @ c_content c @ close_tag c"

definition row_text :: "row_src \<Rightarrow> string" where
  "row_text r = concat (map render_cell (r_cells r)) @ r_tail r"

definition render_row :: "row_src \<Rightarrow> string" where
  "render_row r = r_gap r @ row_text r @ ''</tr>''"

definition table_body :: "row_src list \<Rightarrow> string \<Rightarrow> string" where
  "table_body rows ttail = concat (map render_row rows) @ ttail"

definition table_text :: "row_src list \<Rightarrow> string \<Rightarrow> string" where
  "table_text rows ttail = table_body rows ttail @ ''</table>''"

definition wf_cell :: "cell_src \<Rightarrow> bool" where
  "wf_cell c \<longleftrightarrow>
     \<not> contains (c_before c) ''<td'' \<and> \<not> contains (c_before c) ''<th''
     \<and> CHR ''>'' \<notin> set (c_attrs c)
     \<and> \<not> contains (c_content c) (close_tag c)"

definition wf_row :: "row_src \<Rightarrow> bool" where
  "wf_row r \<longleftrightarrow>
     \<not> contains (r_gap r) ''<tr''
     \<and> prefix ''<tr'' (row_text r) \<and> \<not> contains (row_text r) ''</tr>''
     \<and> list_all wf_cell (r_cells r)
     \<and> \<not> contains (r_tail r) ''<td'' \<and> \<not> contains (r_tail r) ''<th''"

definition wf_table :: "row_src list \<Rightarrow> string \<Rightarrow> bool" where
  "wf_table rows ttail \<longleftrightarrow>
     list_all wf_row rows \<and> \<not> contains ttail ''<tr''
     \<and> prefix ''<table'' (table_body rows ttail)
     \<and> \<not> contains (table_body rows ttail) ''</table>''"

text \<open>The value of a cell, and the grid of a table: what the cleaner makes of each content.\<close>

definition clean_text :: "string \<Rightarrow> string" where
  "clean_text t =
     str_strip (map (\<lambda>c. if c = CHR 0x0A \<or> c = CHR 0x0D then CHR '' '' else c) (strip_spans t))"

definition cell_value :: "cell_src \<Rightarrow> string" where
  "cell_value c = clean_text (str_strip (c_content c))"

definition grid_of :: "row_src list \<Rightarrow> string list list" where
  "grid_of rows = map (\<lambda>r. map cell_value (r_cells r)) rows"

section \<open>Facts about the string primitives\<close>

lemma index_of_Some_iff:
  "index_of sub s = Some i \<longleftrightarrow>
     i \<le> length s \<and> prefix sub (drop i s) \<and> (\<forall>j<i. \<not> prefix sub (drop j s))"
proof (induction s arbitrary: i)
  case Nil
  then show ?case by auto
next
  case (Cons c cs)
  show ?case
  proof (cases "prefix sub (c # cs)")
    case True
    then show ?thesis
      by (cases i) auto
  next
    case False
    have "index_of sub (c # cs) = Some i \<longleftrightarrow> (\<exists>k. i = Suc k \<and> index_of sub cs = Some k)"
      using False by auto
    also have "\<dots> \<longleftrightarrow> (\<exists>k. i = Suc k \<and> k \<le> length cs \<and> prefix sub (drop k cs)
                    \<and> (\<forall>j<k. \<not> prefix sub (drop j cs)))"
      by (simp add: Cons.IH)
    also have "\<dots> \<longleftrightarrow> i \<le> length (c # cs) \<and> prefix sub (drop i (c # cs))
                    \<and> (\<forall>j<i. \<not> prefix sub (drop j (c # cs)))"
    proof (cases i)
      case 0
      then show ?thesis using False by simp
    next
      case (Suc k)
      have "(\<forall>j<Suc k. \<not> prefix sub (drop j (c # cs))) \<longleftrightarrow> (\<forall>j<k. \<not> prefix sub (drop j cs))"
        using False by (auto simp: less_Suc_eq_0_disj)
      then show ?thesis using Suc by simp
    qed
    finally show ?thesis .
  qed
qed

lemma index_of_None_iff:
  "index_of sub s = None \<longleftrightarrow> (\<forall>j\<le>length s. \<not> prefix sub (drop j s))"
proof (induction s)
  case Nil
  then show ?case by auto
next
  case (Cons c cs)
  have "(\<forall>j\<le>length (c # cs). \<not> prefix sub (drop j (c # cs)))
        \<longleftrightarrow> \<not> prefix sub (c # cs) \<and> (\<forall>j\<le>length cs. \<not> prefix sub (drop j cs))"
  proof (intro iffI conjI allI impI)
    fix j assume a: "\<forall>j\<le>length (c # cs). \<not> prefix sub (drop j (c # cs))" and "j \<le> length cs"
    then have "\<not> prefix sub (drop (Suc j) (c # cs))" by (metis Suc_le_mono length_Cons)
    then show "\<not> prefix sub (drop j cs)" by simp
  next
    fix j assume a: "\<not> prefix sub (c # cs) \<and> (\<forall>j\<le>length cs. \<not> prefix sub (drop j cs))"
      and "j \<le> length (c # cs)"
    then show "\<not> prefix sub (drop j (c # cs))" by (cases j) auto
  next
    assume "\<forall>j\<le>length (c # cs). \<not> prefix sub (drop j (c # cs))"
    then have "\<not> prefix sub (drop 0 (c # cs))" by blast
    then show "\<not> prefix sub (c # cs)" by simp
  qed
  then show ?case using Cons.IH by auto
qed


lemma str_find_nat:
  "str_find s sub (int k) =
     (if k \<le> length s
      then (case index_of sub (drop k s) of None \<Rightarrow> - 1 | Some i \<Rightarrow> int (k + i))
      else - 1)"
  by (simp add: str_find_def clamp_index_def)

lemma str_find_eqI:
  assumes "k \<le> i" "i \<le> length s" "prefix sub (drop i s)"
    and "\<forall>j. k \<le> j \<and> j < i \<longrightarrow> \<not> prefix sub (drop j s)"
  shows "str_find s sub (int k) = int i"
proof -
  have "index_of sub (drop k s) = Some (i - k)"
    unfolding index_of_Some_iff using assms by (auto simp: add.commute)
  then show ?thesis using assms by (simp add: str_find_nat)
qed

lemma str_find_noneI:
  assumes "sub \<noteq> []" "\<forall>j\<ge>k. \<not> prefix sub (drop j s)"
  shows "str_find s sub (int k) = - 1"
proof (cases "k \<le> length s")
  case True
  have "index_of sub (drop k s) = None"
    unfolding index_of_None_iff using assms by (auto simp: add.commute)
  then show ?thesis by (simp add: str_find_nat)
next
  case False
  then show ?thesis by (simp add: str_find_nat)
qed

lemma str_find_cases [consumes 1, case_names none some]:
  assumes "sub \<noteq> []"
  obtains "str_find s sub (int k) = - 1" "\<forall>j\<ge>k. \<not> prefix sub (drop j s)"
  | i where "str_find s sub (int k) = int i" "k \<le> i" "i + length sub \<le> length s"
      "prefix sub (drop i s)" "\<forall>j. k \<le> j \<and> j < i \<longrightarrow> \<not> prefix sub (drop j s)"
proof (cases "k \<le> length s")
  case False
  have "\<forall>j\<ge>k. \<not> prefix sub (drop j s)" using False assms by auto
  then show ?thesis using that(1) str_find_noneI[OF assms] by blast
next
  case True
  show ?thesis
  proof (cases "index_of sub (drop k s)")
    case None
    then have "\<forall>j\<ge>k. \<not> prefix sub (drop j s)"
      unfolding index_of_None_iff using assms True
      by (metis add.commute add_diff_cancel_left' diff_le_mono drop_all drop_drop le_Suc_ex length_drop nat_le_linear prefix_Nil)
    then show ?thesis using that(1) str_find_noneI[OF assms] by blast
  next
    case (Some i)
    then have i: "i \<le> length s - k" "prefix sub (drop (k + i) s)"
      "\<forall>j<i. \<not> prefix sub (drop (k + j) s)"
      unfolding index_of_Some_iff by (auto simp: add.commute)
    have 1: "str_find s sub (int k) = int (k + i)" using Some True by (simp add: str_find_nat)
    have "length sub \<le> length (drop (k + i) s)" using i(2) by (rule prefix_length_le)
    then have 2: "k + i + length sub \<le> length s" using i(1) True by simp
    have 3: "\<forall>j. k \<le> j \<and> j < k + i \<longrightarrow> \<not> prefix sub (drop j s)"
    proof (intro allI impI)
      fix j assume "k \<le> j \<and> j < k + i"
      then have "j - k < i" "j = k + (j - k)" by auto
      then show "\<not> prefix sub (drop j s)" using i(3) by metis
    qed
    show ?thesis using that(2)[OF 1 _ 2 i(2) 3] by simp
  qed
qed


lemma strip_spans_no_lt: "CHR ''<'' \<notin> set t \<Longrightarrow> strip_spans t = t"
  by (induction t) auto

lemma strip_spans_span:
  assumes "CHR ''>'' \<notin> set b"
  shows "strip_spans (CHR ''<'' # b @ CHR ''>'' # c) = strip_spans c"
proof -
  have "dropWhile (\<lambda>x. x \<noteq> CHR ''>'') (b @ CHR ''>'' # c) = CHR ''>'' # c"
    using assms by (auto simp: dropWhile_append3)
  then show ?thesis by simp
qed

lemma strip_spans_open:
  assumes "CHR ''>'' \<notin> set b"
  shows "strip_spans (CHR ''<'' # b) = CHR ''<'' # b"
proof -
  have "dropWhile (\<lambda>x. x \<noteq> CHR ''>'') b = []"
    using assms by auto
  then show ?thesis by (simp del: dropWhile_eq_Nil_conv)
qed

lemma strip_spans_append:
  "CHR ''<'' \<notin> set (strip_spans p) \<Longrightarrow> strip_spans (p @ r) = strip_spans p @ strip_spans r"
proof (induction p rule: strip_spans.induct)
  case 1
  then show ?case by simp
next
  case (2 c cs)
  show ?case
  proof (cases "c = CHR ''<''")
    case False
    then show ?thesis using 2 by simp
  next
    case True
    show ?thesis
    proof (cases "dropWhile (\<lambda>x. x \<noteq> CHR ''>'') cs")
      case Nil
      then have "strip_spans (c # cs) = c # cs"
        using True by (simp del: dropWhile_eq_Nil_conv)
      then have "CHR ''<'' \<in> set (strip_spans (c # cs))"
        using True by (simp only: list.set insertI1)
      then show ?thesis using "2.prems" by blast
    next
      case (Cons g rest)
      have "g \<in> set (dropWhile (\<lambda>x. x \<noteq> CHR ''>'') cs)"
        unfolding Cons by simp
      then have g: "g \<in> set cs" by (rule set_dropWhileD)
      have "\<not> hd (dropWhile (\<lambda>x. x \<noteq> CHR ''>'') cs) \<noteq> CHR ''>''"
        by (rule hd_dropWhile) (simp add: Cons)
      then have "\<not> g \<noteq> CHR ''>''" unfolding Cons by simp
      with g have "dropWhile (\<lambda>x. x \<noteq> CHR ''>'') (cs @ r)
                   = dropWhile (\<lambda>x. x \<noteq> CHR ''>'') cs @ r"
        by (rule dropWhile_append1)
      then have d: "dropWhile (\<lambda>x. x \<noteq> CHR ''>'') (cs @ r) = g # rest @ r"
        unfolding Cons by simp
      have l: "strip_spans (c # cs) = strip_spans rest"
        using True Cons by simp
      have "strip_spans ((c # cs) @ r) = strip_spans (rest @ r)"
        using True d by simp
      also have "\<dots> = strip_spans rest @ strip_spans r"
        using "2.IH"(1)[OF True Cons] "2.prems" unfolding l by blast
      finally show ?thesis unfolding l .
    qed
  qed
qed


lemma prefix_char_drop: "prefix [c] (drop j s) \<longleftrightarrow> j < length s \<and> s ! j = c"
proof (cases "j < length s")
  case True
  then have "drop j s = s ! j # drop (Suc j) s" by (simp add: Cons_nth_drop_Suc)
  then show ?thesis using True by auto
next
  case False
  then show ?thesis by simp
qed

lemma contains_char: "contains s [c] \<longleftrightarrow> c \<in> set s"
proof -
  have "contains s [c] \<longleftrightarrow> (\<exists>j\<le>length s. prefix [c] (drop j s))"
    by (simp add: contains_def index_of_None_iff)
  also have "\<dots> \<longleftrightarrow> (\<exists>j<length s. s ! j = c)"
    unfolding prefix_char_drop by (blast intro: less_imp_le)
  also have "\<dots> \<longleftrightarrow> c \<in> set s"
    by (auto simp: in_set_conv_nth)
  finally show ?thesis .
qed

lemma find_char_split:
  assumes "c \<notin> set a"
  shows "str_find (p @ a @ c # r) [c] (int (length p)) = int (length p + length a)"
proof (rule str_find_eqI)
  show "prefix [c] (drop (length p + length a) (p @ a @ c # r))" by simp
  show "\<forall>j. length p \<le> j \<and> j < length p + length a \<longrightarrow> \<not> prefix [c] (drop j (p @ a @ c # r))"
  proof (intro allI impI)
    fix j assume j: "length p \<le> j \<and> j < length p + length a"
    then have "(p @ a @ c # r) ! j = a ! (j - length p)" "j - length p < length a"
      by (auto simp: nth_append)
    then have "(p @ a @ c # r) ! j \<in> set a" by simp
    then show "\<not> prefix [c] (drop j (p @ a @ c # r))"
      unfolding prefix_char_drop using assms by auto
  qed
qed simp_all

lemma find_char_none:
  assumes "c \<notin> set r"
  shows "str_find (p @ r) [c] (int (length p)) = - 1"
proof (rule str_find_noneI)
  show "\<forall>j\<ge>length p. \<not> prefix [c] (drop j (p @ r))"
  proof (intro allI impI)
    fix j assume j: "length p \<le> j"
    show "\<not> prefix [c] (drop j (p @ r))"
    proof
      assume "prefix [c] (drop j (p @ r))"
      then have "j < length (p @ r)" "(p @ r) ! j = c" unfolding prefix_char_drop by auto
      then have "r ! (j - length p) = c" "j - length p < length r"
        using j by (auto simp: nth_append)
      then show False using assms by auto
    qed
  qed
qed simp

lemma clamp_index_nat: "clamp_index n (int k) = min k n"
  by (simp add: clamp_index_def)

lemma slice_from_nat: "slice_from s (int k) = drop k s"
  by (simp add: slice_from_def clamp_index_nat min_def)

lemma slice_to_nat: "slice_to s (int k) = take k s"
  by (simp add: slice_to_def clamp_index_nat min_def)

lemma slice_nat: "slice s (int i) (int j) = take (j - i) (drop i s)"
proof (cases "i \<le> length s")
  case True
  then show ?thesis
    by (cases "j \<le> length s") (simp_all add: slice_def clamp_index_nat Let_def min_def)
next
  case False
  then show ?thesis by (simp add: slice_def clamp_index_nat Let_def)
qed

lemma clean_loop_eq: "clean_loop t = Some (strip_spans t)"
proof (induction t rule: length_induct)
  case (1 t)
  show ?case
  proof (cases "CHR ''<'' \<in> set t")
    case False
    then show ?thesis
      by (subst clean_loop.simps) (simp add: contains_char strip_spans_no_lt)
  next
    case True
    then obtain a r where t: "t = a @ CHR ''<'' # r" and a: "CHR ''<'' \<notin> set a"
      by (auto dest: split_list_first)
    have lt: "str_find t ''<'' 0 = int (length a)"
      using find_char_split[OF a, of "[]" r] by (simp add: t)
    have sa: "strip_spans t = a @ strip_spans (CHR ''<'' # r)"
      unfolding t using a by (simp add: strip_spans_append strip_spans_no_lt)
    show ?thesis
    proof (cases "CHR ''>'' \<in> set r")
      case False
      then have "CHR ''>'' \<notin> set (CHR ''<'' # r)" by simp
      from find_char_none[OF this, of a]
      have gt: "str_find t ''>'' (int (length a)) = - 1" by (simp add: t)
      have "clean_loop t = Some t"
        by (subst clean_loop.simps) (simp add: lt gt)
      moreover have "strip_spans t = t"
        unfolding sa by (simp only: strip_spans_open[OF False] t)
      ultimately show ?thesis by simp
    next
      case True
      then obtain b c where r: "r = b @ CHR ''>'' # c" and b: "CHR ''>'' \<notin> set b"
        by (auto dest: split_list_first)
      have "CHR ''>'' \<notin> set (CHR ''<'' # b)" using b by simp
      from find_char_split[OF this, of a c]
      have gt: "str_find t ''>'' (int (length a)) = int (length a + length b + 1)"
        by (simp add: t r)
      have c1: "contains t ''<''" "contains t ''>''"
        by (simp_all add: contains_char t r)
      have s1: "slice_to t (int (length a)) = a"
        unfolding slice_to_nat by (simp add: t)
      have s2: "slice_from t (int (length a + length b + 1) + 1) = c"
      proof -
        have e: "int (length a + length b + 1) + 1 = int (length a + length b + 2)" by simp
        show ?thesis unfolding e slice_from_nat by (simp add: t r)
      qed
      have n: "int (length a) \<noteq> - 1" "int (length a + length b + 1) \<noteq> - 1"
        by simp_all
      have "clean_loop t = clean_loop (a @ c)"
        by (subst clean_loop.simps)
          (simp only: c1 lt gt s1 s2 n Let_def simp_thms if_True if_False)
      also have "\<dots> = Some (strip_spans (a @ c))"
        using 1 by (simp add: t r)
      also have "strip_spans (a @ c) = strip_spans t"
        unfolding sa r using a b
        by (simp add: strip_spans_append strip_spans_no_lt strip_spans_span del: strip_spans.simps)
      finally show ?thesis .
    qed
  qed
qed

section \<open>What the cell cleaner computes\<close>

lemma strip_spans_no_span_aux:
  "CHR ''>'' \<notin> set (dropWhile (\<lambda>x. x \<noteq> CHR ''<'') (strip_spans t))"
proof (induction t rule: strip_spans.induct)
  case 1
  then show ?case by simp
next
  case (2 c cs)
  show ?case
  proof (cases "c = CHR ''<''")
    case False
    then show ?thesis using "2.IH"(2) by simp
  next
    case True
    show ?thesis
    proof (cases "dropWhile (\<lambda>x. x \<noteq> CHR ''>'') cs")
      case Nil
      then have "CHR ''>'' \<notin> set cs" by auto
      moreover have "strip_spans (c # cs) = c # cs"
        using True Nil by (simp del: dropWhile_eq_Nil_conv)
      ultimately show ?thesis using True by simp
    next
      case (Cons g rest)
      then have "strip_spans (c # cs) = strip_spans rest" using True by simp
      then show ?thesis using "2.IH"(1)[OF True Cons] by simp
    qed
  qed
qed

lemma strip_spans_no_span: "strip_spans t \<noteq> a @ ''<'' @ b @ ''>'' @ c"
proof
  assume eq: "strip_spans t = a @ ''<'' @ b @ ''>'' @ c"
  have "CHR ''>'' \<in> set (dropWhile (\<lambda>x. x \<noteq> CHR ''<'') (a @ ''<'' @ b @ ''>'' @ c))"
  proof (cases "CHR ''<'' \<in> set a")
    case True
    then have "dropWhile (\<lambda>x. x \<noteq> CHR ''<'') (a @ ''<'' @ b @ ''>'' @ c)
               = dropWhile (\<lambda>x. x \<noteq> CHR ''<'') a @ ''<'' @ b @ ''>'' @ c"
      by (intro dropWhile_append1[of "CHR ''<''"]) auto
    then show ?thesis by simp
  next
    case False
    then have "dropWhile (\<lambda>x. x \<noteq> CHR ''<'') (a @ ''<'' @ b @ ''>'' @ c) = ''<'' @ b @ ''>'' @ c"
      by (subst dropWhile_append2) auto
    then show ?thesis by simp
  qed
  then show False using strip_spans_no_span_aux[of t] unfolding eq by blast
qed

lemma str_replace_char: "str_replace s old [x] = map (\<lambda>c. if c = old then x else c) s"
  by (induction s) (auto simp: str_replace_def)


lemma clean_html_eq:
  "clean_html t =
     Some (str_strip (map (\<lambda>c. if c = CHR 0x0A \<or> c = CHR 0x0D then CHR '' '' else c)
                         (strip_spans t)))"
proof -
  have "(\<lambda>c. if c = CHR 0x0D then CHR '' '' else c) \<circ> (\<lambda>c. if c = CHR 0x0A then CHR '' '' else c)
        = (\<lambda>c. if c = CHR 0x0A \<or> c = CHR 0x0D then CHR '' '' else c)"
    by auto
  then show ?thesis
    by (simp add: clean_html_def clean_loop_eq str_replace_char)
qed


lemma str_strip_within: "\<exists>u v. s = u @ str_strip s @ v"
proof -
  let ?d = "dropWhile isspace s"
  have 1: "s = takeWhile isspace s @ ?d" by simp
  have 2: "?d = str_strip s @ rev (takeWhile isspace (rev ?d))"
    by (simp only: str_strip_def rev_append[symmetric] takeWhile_dropWhile_id rev_rev_ident)
  show ?thesis using 1 2 by metis
qed

lemma set_str_strip: "set (str_strip s) \<subseteq> set s"
proof -
  obtain u v where "s = u @ str_strip s @ v" using str_strip_within by blast
  then have "set s = set u \<union> set (str_strip s) \<union> set v" by (metis set_append Un_assoc)
  then show ?thesis by blast
qed





lemma strip_spans_cases [case_names plain unclosed span]:
  obtains "CHR ''<'' \<notin> set t"
  | a r where "t = a @ ''<'' @ r" "CHR ''<'' \<notin> set a" "CHR ''>'' \<notin> set r"
  | a b c where "t = a @ ''<'' @ b @ ''>'' @ c" "CHR ''<'' \<notin> set a" "CHR ''>'' \<notin> set b"
proof (cases "CHR ''<'' \<in> set t")
  case False
  then show ?thesis using that(1) by blast
next
  case True
  then obtain a r where t: "t = a @ CHR ''<'' # r" and a: "CHR ''<'' \<notin> set a"
    by (auto dest: split_list_first)
  show ?thesis
  proof (cases "CHR ''>'' \<in> set r")
    case False
    then show ?thesis using that(2)[of a r] t a by simp
  next
    case True
    then obtain b c where "r = b @ CHR ''>'' # c" "CHR ''>'' \<notin> set b"
      by (auto dest: split_list_first)
    then show ?thesis using that(3)[of a b c] t a by simp
  qed
qed

lemma strip_spans_plain_prefix:
  assumes "CHR ''<'' \<notin> set a"
  shows "strip_spans (a @ c) = a @ strip_spans c"
  using strip_spans_append[of a c] strip_spans_no_lt[OF assms] assms by simp

lemma strip_spans_first_span:
  assumes "CHR ''<'' \<notin> set a" "CHR ''>'' \<notin> set b"
  shows "strip_spans (a @ ''<'' @ b @ ''>'' @ c) = a @ strip_spans c"
proof -
  have "strip_spans (a @ ''<'' @ b @ ''>'' @ c) = strip_spans a @ strip_spans (''<'' @ b @ ''>'' @ c)"
    using assms(1) by (simp add: strip_spans_append strip_spans_no_lt del: strip_spans.simps)
  also have "strip_spans (''<'' @ b @ ''>'' @ c) = strip_spans c"
    using strip_spans_span[OF assms(2)] by simp
  finally show ?thesis using assms(1) by (simp add: strip_spans_no_lt)
qed

lemma strip_spans_drop_span:
  assumes "CHR ''<'' \<notin> set a" "CHR ''>'' \<notin> set b"
  shows "strip_spans (a @ ''<'' @ b @ ''>'' @ c) = strip_spans (a @ c)"
  using strip_spans_first_span[OF assms, of c] strip_spans_plain_prefix[OF assms(1), of c]
  by (simp del: strip_spans.simps)

lemma strip_spans_unclosed:
  assumes "CHR ''<'' \<notin> set a" "CHR ''>'' \<notin> set r"
  shows "strip_spans (a @ ''<'' @ r) = a @ ''<'' @ r"
proof -
  have "strip_spans (a @ ''<'' @ r) = strip_spans a @ strip_spans (''<'' @ r)"
    using assms(1) by (simp add: strip_spans_append strip_spans_no_lt del: strip_spans.simps)
  also have "strip_spans (''<'' @ r) = ''<'' @ r"
    using strip_spans_open[OF assms(2)] by simp
  finally show ?thesis using assms(1) by (simp add: strip_spans_no_lt)
qed

text \<open>
  Claim C4. A \<open><\<close> that is no tag is treated like one: when a \<open>>\<close> comes anywhere later,
  everything from that \<open><\<close> through the next \<open>>\<close> is removed, whether the \<open><\<close> is the first
  of the text or follows text that the cleaner has finished with (\<open>p\<close>, cleaned to \<open>q\<close>).
  When there is no \<open><\<close>, or no \<open>>\<close> after it, the loop stops and the text stays as it is.
  So \<open>3 < 5\<close> alone is unchanged, and \<open>3 < 5 and 7 > 2\<close> loses \<open>< 5 and 7 >\<close>.
\<close>

theorem clean_html_bare_lt:
  "(CHR ''<'' \<notin> set a \<and> CHR ''>'' \<notin> set b \<longrightarrow>
      clean_html (a @ ''<'' @ b @ ''>'' @ c) = clean_html (a @ c))
   \<and> (clean_loop p = Some q \<and> CHR ''<'' \<notin> set q \<and> CHR ''>'' \<notin> set b \<longrightarrow>
      clean_loop (p @ ''<'' @ b @ ''>'' @ c) = map_option ((@) q) (clean_loop c))
   \<and> (CHR ''<'' \<notin> set a \<longrightarrow> clean_loop a = Some a)
   \<and> (CHR ''<'' \<notin> set a \<and> CHR ''>'' \<notin> set b \<longrightarrow>
      clean_loop (a @ ''<'' @ b) = Some (a @ ''<'' @ b))
   \<and> clean_html ''3 < 5'' = Some ''3 < 5''
   \<and> clean_html ''3 < 5 and 7 > 2'' = Some ''3  2''"
proof (intro conjI impI)
  assume h: "CHR ''<'' \<notin> set a \<and> CHR ''>'' \<notin> set b"
  then have "strip_spans (a @ ''<'' @ b @ ''>'' @ c) = strip_spans (a @ c)"
    by (intro strip_spans_drop_span) simp_all
  then show "clean_html (a @ ''<'' @ b @ ''>'' @ c) = clean_html (a @ c)"
    by (simp only: clean_html_eq)
next
  assume h: "clean_loop p = Some q \<and> CHR ''<'' \<notin> set q \<and> CHR ''>'' \<notin> set b"
  then have q: "strip_spans p = q" by (simp add: clean_loop_eq)
  have "strip_spans (p @ ''<'' @ b @ ''>'' @ c) = strip_spans p @ strip_spans (''<'' @ b @ ''>'' @ c)"
    using h q by (simp add: strip_spans_append del: strip_spans.simps)
  also have "strip_spans (''<'' @ b @ ''>'' @ c) = strip_spans c"
    using strip_spans_span[of b c] h by simp
  finally show "clean_loop (p @ ''<'' @ b @ ''>'' @ c) = map_option ((@) q) (clean_loop c)"
    by (simp add: clean_loop_eq q)
next
  assume "CHR ''<'' \<notin> set a"
  then show "clean_loop a = Some a" by (simp add: clean_loop_eq strip_spans_no_lt)
next
  assume "CHR ''<'' \<notin> set a \<and> CHR ''>'' \<notin> set b"
  then have "strip_spans (a @ ''<'' @ b) = a @ ''<'' @ b"
    by (intro strip_spans_unclosed) simp_all
  then show "clean_loop (a @ ''<'' @ b) = Some (a @ ''<'' @ b)"
    by (simp only: clean_loop_eq)
next
  show "clean_html ''3 < 5'' = Some ''3 < 5''" by code_simp
next
  show "clean_html ''3 < 5 and 7 > 2'' = Some ''3  2''" by code_simp
qed

theorem clean_html_bare_lt_witness:
  "CHR ''<'' \<notin> set ''3 '' \<and> CHR ''>'' \<notin> set '' 5 and 7 ''
   \<and> clean_html (''3 '' @ ''<'' @ '' 5 and 7 '' @ ''>'' @ '' 2'') = clean_html (''3 '' @ '' 2'')
   \<and> clean_loop ''<b>3</b> '' = Some ''3 '' \<and> CHR ''<'' \<notin> set ''3 ''
   \<and> clean_loop (''<b>3</b> '' @ ''<'' @ '' 5 and 7 '' @ ''>'' @ '' 2'')
       = map_option ((@) ''3 '') (clean_loop '' 2'')
   \<and> clean_loop ''3 '' = Some ''3 ''
   \<and> clean_loop (''3 '' @ ''<'' @ '' 5 and 7 '') = Some (''3 '' @ ''<'' @ '' 5 and 7 '')"
proof -
  have h1: "CHR ''<'' \<notin> set ''3 ''" by simp
  have h2: "CHR ''>'' \<notin> set '' 5 and 7 ''" by simp
  have h3: "clean_loop ''<b>3</b> '' = Some ''3 ''" by code_simp
  show ?thesis
    using clean_html_bare_lt[of "''3 ''" "'' 5 and 7 ''" "'' 2''" "''<b>3</b> ''" "''3 ''"] h1 h2 h3
    by blast
qed

text \<open>
  Claim C10. The cell cleaner returns on every input. One turn of its loop either leaves
  the loop with the text as it is, which it does when no \<open>>\<close> follows a \<open><\<close>, or goes on
  with a strictly shorter text, the span from the first \<open><\<close> through the next \<open>>\<close> cut out.
\<close>

theorem clean_html_terminates:
  "(\<exists>r. clean_html raw = Some r)
   \<and> ((\<forall>a b c. raw \<noteq> a @ ''<'' @ b @ ''>'' @ c) \<and> clean_loop raw = Some raw
      \<or> (\<exists>a b c. raw = a @ ''<'' @ b @ ''>'' @ c \<and> length (a @ c) < length raw
            \<and> clean_loop raw = clean_loop (a @ c)))"
proof
  show "\<exists>r. clean_html raw = Some r" by (simp add: clean_html_eq)
  show "(\<forall>a b c. raw \<noteq> a @ ''<'' @ b @ ''>'' @ c) \<and> clean_loop raw = Some raw
      \<or> (\<exists>a b c. raw = a @ ''<'' @ b @ ''>'' @ c \<and> length (a @ c) < length raw
            \<and> clean_loop raw = clean_loop (a @ c))"
  proof (cases raw rule: strip_spans_cases)
    case plain
    then have "\<forall>a b c. raw \<noteq> a @ ''<'' @ b @ ''>'' @ c" by auto
    moreover have "clean_loop raw = Some raw"
      using plain by (simp add: clean_loop_eq strip_spans_no_lt)
    ultimately show ?thesis by blast
  next
    case (unclosed a r)
    have e: "strip_spans raw = raw"
      unfolding unclosed(1) using unclosed(2,3) by (rule strip_spans_unclosed)
    then have "\<forall>a b c. raw \<noteq> a @ ''<'' @ b @ ''>'' @ c"
      using strip_spans_no_span[of raw] by metis
    then show ?thesis using e by (simp add: clean_loop_eq)
  next
    case (span a b c)
    have "strip_spans raw = strip_spans (a @ c)"
      unfolding span(1) using span(2,3) by (rule strip_spans_drop_span)
    then have "clean_loop raw = clean_loop (a @ c)" by (simp add: clean_loop_eq)
    moreover have "length (a @ c) < length raw" by (simp add: span(1))
    ultimately show ?thesis using span(1) by blast
  qed
qed

theorem clean_html_terminates_witness:
  "(\<exists>r. clean_html ''a <i>b</i> < c'' = Some r)"
  using clean_html_terminates[of "''a <i>b</i> < c''"] by blast

section \<open>What the CSV writer writes\<close>

lemma collapse_quotes_replace:
  "collapse_quotes (str_replace cell (CHR 0x22) [CHR 0x22, CHR 0x22]) = Some cell"
  by (induction cell) (auto simp: str_replace_def)

lemma csv_unescape_field: "csv_unescape (csv_field cell) = Some cell"
proof -
  let ?e = "str_replace cell (CHR 0x22) [CHR 0x22, CHR 0x22]"
  have "csv_field cell = CHR 0x22 # ?e @ [CHR 0x22]" by (simp add: csv_field_def)
  moreover have "butlast (tl (CHR 0x22 # ?e @ [CHR 0x22])) = ?e"
    by (simp add: butlast_append)
  ultimately show ?thesis
    by (simp add: csv_unescape_def collapse_quotes_replace)
qed

text \<open>
  Claim C2. The CSV text of a grid is its rows, each followed by a line feed; a row is its
  fields joined by commas; a field is the cell between two double quotes, with every double
  quote of the cell doubled, whatever the cell holds. \<open>save_csv\<close> writes that text to the
  file. The cell \<open>He said "hi"\<close> becomes \<open>"He said ""hi"""\<close>, and unescaping a written field
  (outer quotes stripped, doubled quotes collapsed) gives the cell back.
\<close>

theorem save_csv_quoting:
  "csv_text [] = [] \<and> csv_text (row # rows) = csv_line row @ [CHR 0x0A] @ csv_text rows
   \<and> csv_line [] = []
   \<and> csv_line [cell] = csv_field cell
   \<and> csv_line (cell # cell' # cells) = csv_field cell @ '','' @ csv_line (cell' # cells)
   \<and> csv_field cell =
        [CHR 0x22] @ concat (map (\<lambda>c. if c = CHR 0x22 then [CHR 0x22, CHR 0x22] else [c]) cell)
          @ [CHR 0x22]
   \<and> writes (save_csv rows filename w) = writes w @ [(filename, csv_text rows)]
   \<and> csv_field (''He said '' @ [CHR 0x22] @ ''hi'' @ [CHR 0x22])
        = [CHR 0x22] @ ''He said '' @ [CHR 0x22, CHR 0x22] @ ''hi'' @ [CHR 0x22, CHR 0x22, CHR 0x22]
   \<and> csv_unescape (csv_field cell) = Some cell"
proof (intro conjI)
  show "csv_field (''He said '' @ [CHR 0x22] @ ''hi'' @ [CHR 0x22])
        = [CHR 0x22] @ ''He said '' @ [CHR 0x22, CHR 0x22] @ ''hi'' @ [CHR 0x22, CHR 0x22, CHR 0x22]"
    by (simp add: csv_field_def str_replace_def)
  show "csv_unescape (csv_field cell) = Some cell" by (rule csv_unescape_field)
  show "writes (save_csv rows filename w) = writes w @ [(filename, csv_text rows)]"
    by (simp add: save_csv_def print_def write_file_def)
qed (simp_all add: csv_text_def csv_line_def csv_field_def str_replace_def)

section \<open>Occurrences in a text that goes on\<close>

lemma occ_append_right:
  "length a \<le> j \<Longrightarrow> prefix pat (drop j (a @ b)) = prefix pat (drop (j - length a) b)"
  by simp

lemma occ_append_left:
  assumes "j + length pat \<le> length a"
  shows "prefix pat (drop j (a @ b)) = prefix pat (drop j a)"
proof -
  have "drop j (a @ b) = drop j a @ b" using assms by simp
  moreover have "length pat \<le> length (drop j a)" using assms by simp
  ultimately show ?thesis
    by (auto simp: prefix_append)
qed

lemma occ_straddle:
  assumes pat: "pat = c # r" "c \<notin> set r" and b: "b = c # b'" and j: "j < length a"
  shows "prefix pat (drop j (a @ b)) = prefix pat (drop j a)"
proof -
  obtain x q where q: "drop j a = x # q"
    using j by (cases "drop j a") auto
  have d: "drop j (a @ b) = (x # q) @ b" using j q by simp
  show ?thesis
  proof
    assume "prefix pat (drop j a)"
    then show "prefix pat (drop j (a @ b))" unfolding d q by (rule prefix_prefix)
  next
    assume "prefix pat (drop j (a @ b))"
    then consider "prefix pat (x # q)" | us where "pat = (x # q) @ us" "prefix us b"
      unfolding d prefix_append by blast
    then show "prefix pat (drop j a)"
    proof cases
      case 1
      then show ?thesis by (simp add: q)
    next
      case 2
      show ?thesis
      proof (cases us)
        case Nil
        then show ?thesis using 2 by (simp add: q)
      next
        case (Cons u us')
        then have "u = c" using 2(2) b by simp
        moreover have "r = q @ u # us'" using 2(1) pat(1) Cons by simp
        ultimately show ?thesis using pat(2) by simp
      qed
    qed
  qed
qed

lemma not_contains_iff: "\<not> contains s sub \<longleftrightarrow> (\<forall>j. \<not> prefix sub (drop j s)) \<and> sub \<noteq> []"
proof -
  have "\<not> contains s sub \<longleftrightarrow> (\<forall>j\<le>length s. \<not> prefix sub (drop j s))"
    by (simp add: contains_def index_of_None_iff)
  also have "\<dots> \<longleftrightarrow> (\<forall>j. \<not> prefix sub (drop j s)) \<and> sub \<noteq> []"
  proof (intro iffI conjI allI)
    fix j assume a: "\<forall>j\<le>length s. \<not> prefix sub (drop j s)"
    then have "\<not> prefix sub (drop (length s) s)" by blast
    then show ne: "sub \<noteq> []" by auto
    show "\<not> prefix sub (drop j s)"
    proof (cases "j \<le> length s")
      case True
      then show ?thesis using a by blast
    next
      case False
      then show ?thesis using ne by simp
    qed
  qed blast
  finally show ?thesis .
qed


text \<open>Searching in a text that goes on with a part \<open>u\<close> that starts with \<open><\<close>.\<close>

lemma str_find_append_some:
  assumes pat: "pat = c # r" "c \<notin> set r" and u: "u = c # u'"
    and f: "str_find p pat (int k) = int i"
  shows "str_find (p @ u) pat (int k) = int i"
proof -
  have ne: "pat \<noteq> []" using pat by simp
  from ne show ?thesis
  proof (cases rule: str_find_cases[where s = p and k = k])
    case none
    then show ?thesis using f by simp
  next
    case (some i')
    then have i: "i' = i" using f by simp
    have lt: "i < length p" using some(3) ne i by (cases pat) auto
    show ?thesis
    proof (rule str_find_eqI)
      show "k \<le> i" using some(2) i by simp
      show "i \<le> length (p @ u)" using lt by simp
      show "prefix pat (drop i (p @ u))"
        using occ_straddle[OF pat u lt] some(4) i by simp
      show "\<forall>j. k \<le> j \<and> j < i \<longrightarrow> \<not> prefix pat (drop j (p @ u))"
      proof (intro allI impI)
        fix j assume j: "k \<le> j \<and> j < i"
        then have "j < length p" using lt by simp
        from occ_straddle[OF pat u this] some(5) j i
        show "\<not> prefix pat (drop j (p @ u))" by simp
      qed
    qed
  qed
qed

lemma str_find_append_none:
  assumes pat: "pat = c # r" "c \<notin> set r" and u: "u = c # u'"
    and f: "str_find p pat (int k) = - 1" and nu: "\<not> contains u pat"
  shows "str_find (p @ u) pat (int k) = - 1"
proof -
  have ne: "pat \<noteq> []" using pat by simp
  from ne show ?thesis
  proof (cases rule: str_find_cases[where s = p and k = k])
    case (some i)
    then show ?thesis using f by simp
  next
    case none
    show ?thesis
    proof (rule str_find_noneI[OF ne], intro allI impI)
      fix j assume j: "k \<le> j"
      show "\<not> prefix pat (drop j (p @ u))"
      proof (cases "j < length p")
        case True
        from occ_straddle[OF pat u this] none(2) j show ?thesis by simp
      next
        case False
        then show ?thesis using nu unfolding not_contains_iff by simp
      qed
    qed
  qed
qed

lemma str_find_append_at:
  assumes pat: "pat = c # r" "c \<notin> set r" and u: "prefix pat u"
    and f: "str_find p pat (int k) = - 1" and k: "k \<le> length p"
  shows "str_find (p @ u) pat (int k) = int (length p)"
proof -
  have ne: "pat \<noteq> []" using pat by simp
  obtain u' where u': "u = c # u'" using u pat by (cases u) auto
  from ne show ?thesis
  proof (cases rule: str_find_cases[where s = p and k = k])
    case (some i)
    then show ?thesis using f by simp
  next
    case none
    show ?thesis
    proof (rule str_find_eqI)
      show "prefix pat (drop (length p) (p @ u))" using u by simp
      show "\<forall>j. k \<le> j \<and> j < length p \<longrightarrow> \<not> prefix pat (drop j (p @ u))"
      proof (intro allI impI)
        fix j assume j: "k \<le> j \<and> j < length p"
        then have "j < length p" by simp
        from occ_straddle[OF pat u' this] none(2) j
        show "\<not> prefix pat (drop j (p @ u))" by simp
      qed
    qed (simp_all add: k)
  qed
qed

lemma str_find_after_none:
  assumes "pat \<noteq> []" "\<not> contains u pat" "length p \<le> k"
  shows "str_find (p @ u) pat (int k) = - 1"
proof (rule str_find_noneI[OF assms(1)], intro allI impI)
  fix j assume "k \<le> j"
  then have "length p \<le> j" using assms(3) by simp
  then show "\<not> prefix pat (drop j (p @ u))"
    using assms(2) unfolding not_contains_iff by simp
qed

lemma slice_append_left:
  assumes "j \<le> length p"
  shows "slice (p @ u) (int i) (int j) = slice p (int i) (int j)"
  unfolding slice_nat using assms by (simp add: take_drop)

lemma str_find_found_bounds:
  assumes "pat \<noteq> []" "str_find s pat (int k) \<noteq> - 1"
  obtains i where "str_find s pat (int k) = int i" "k \<le> i" "i + length pat \<le> length s"
  using assms(1)
proof (cases rule: str_find_cases[where s = s and k = k])
  case none
  then show ?thesis using assms(2) by simp
next
  case (some i)
  then show ?thesis using that by blast
qed

lemma parse_rows_unclosed:
  assumes nu: "\<not> contains (''<tr'' @ v) ''</tr>''" and k: "k \<le> length p"
  shows "parse_rows (p @ ''<tr'' @ v) (int k) rows = parse_rows p (int k) rows"
  using k
proof (induction "length p - k" arbitrary: k rows rule: less_induct)
  case less
  let ?u = "''<tr'' @ v"
  let ?t = "p @ ?u"
  have u: "?u = CHR ''<'' # (''tr'' @ v)" by simp
  show ?case
  proof (cases "str_find p ''<tr'' (int k) = - 1")
    case True
    have 1: "str_find ?t ''<tr'' (int k) = int (length p)"
      by (rule str_find_append_at[where c = "CHR ''<''" and r = "''tr''", OF _ _ _ True less.prems])
        simp_all
    have 2: "str_find ?t ''</tr>'' (int (length p)) = - 1"
      by (rule str_find_after_none[OF _ nu]) simp_all
    have "parse_rows ?t (int k) rows = Some rows"
      by (subst parse_rows.simps) (simp only: 1 2 Let_def, simp)
    moreover have "parse_rows p (int k) rows = Some rows"
      by (subst parse_rows.simps) (simp add: True)
    ultimately show ?thesis by simp
  next
    case False
    then obtain i where i: "str_find p ''<tr'' (int k) = int i" "k \<le> i" "i + 3 \<le> length p"
      by (rule str_find_found_bounds[rotated]) auto
    have 1: "str_find ?t ''<tr'' (int k) = int i"
      by (rule str_find_append_some[where c = "CHR ''<''" and r = "''tr''", OF _ _ u i(1)])
        simp_all
    show ?thesis
    proof (cases "str_find p ''</tr>'' (int i) = - 1")
      case True
      have 2: "str_find ?t ''</tr>'' (int i) = - 1"
        by (rule str_find_append_none[where c = "CHR ''<''" and r = "''/tr>''", OF _ _ u True nu])
          simp_all
      have "parse_rows ?t (int k) rows = Some rows"
        by (subst parse_rows.simps) (simp only: 1 2 Let_def, simp)
      moreover have "parse_rows p (int k) rows = Some rows"
        by (subst parse_rows.simps) (simp only: i(1) True Let_def, simp)
      ultimately show ?thesis by simp
    next
      case False
      then obtain e where e: "str_find p ''</tr>'' (int i) = int e" "i \<le> e" "e + 5 \<le> length p"
        by (rule str_find_found_bounds[rotated]) auto
      have 2: "str_find ?t ''</tr>'' (int i) = int e"
        by (rule str_find_append_some[where c = "CHR ''<''" and r = "''/tr>''", OF _ _ u e(1)])
          simp_all
      have 3: "slice ?t (int i) (int e) = slice p (int i) (int e)"
        by (rule slice_append_left) (use e in simp)
      have n: "int i \<noteq> - 1" "int e \<noteq> - 1" "int e + 5 = int (e + 5)" by simp_all
      show ?thesis
      proof (cases "parse_cells (slice p (int i) (int e)) 0 []")
        case None
        have "parse_rows ?t (int k) rows = None"
          by (subst parse_rows.simps) (simp only: 1 2 3 n None Let_def, simp)
        moreover have "parse_rows p (int k) rows = None"
          by (subst parse_rows.simps) (simp only: i(1) e(1) n None Let_def, simp)
        ultimately show ?thesis by simp
      next
        case (Some cells)
        have "parse_rows ?t (int k) rows = parse_rows ?t (int (e + 5)) (rows @ [cells])"
          by (subst parse_rows.simps) (simp only: 1 2 3 n Some Let_def, simp)
        moreover have "parse_rows p (int k) rows = parse_rows p (int (e + 5)) (rows @ [cells])"
          by (subst parse_rows.simps) (simp only: i(1) e(1) n Some Let_def, simp)
        moreover have "parse_rows ?t (int (e + 5)) (rows @ [cells])
                       = parse_rows p (int (e + 5)) (rows @ [cells])"
          by (rule less.hyps) (use i e less.prems in simp_all)
        ultimately show ?thesis by simp
      qed
    qed
  qed
qed

section \<open>What the table extractor returns\<close>

lemma occ_take:
  assumes "prefix pat (drop j (take n xs))" "pat \<noteq> []"
  shows "prefix pat (drop j xs)" "j + length pat \<le> n"
proof -
  have d: "drop j (take n xs) = take (n - j) (drop j xs)" by (simp add: drop_take)
  have "prefix (take (n - j) (drop j xs)) (drop j xs)" by (rule take_is_prefix)
  then show "prefix pat (drop j xs)" using assms(1) unfolding d by (rule prefix_order.trans[rotated])
  have "length pat \<le> length (drop j (take n xs))" using assms(1) by (rule prefix_length_le)
  then show "j + length pat \<le> n" using assms(2) by (cases pat) auto
qed

lemma not_contains_drop:
  assumes "pat \<noteq> []" "\<forall>j\<ge>k. \<not> prefix pat (drop j s)"
  shows "\<not> contains (drop k s) pat"
  unfolding not_contains_iff using assms by (simp add: add.commute)

lemma not_contains_between:
  assumes "pat \<noteq> []" "\<forall>j. k \<le> j \<and> j < i \<longrightarrow> \<not> prefix pat (drop j s)"
    and "n + k < i + length pat"
  shows "\<not> contains (take n (drop k s)) pat"
  unfolding not_contains_iff
proof (intro conjI allI notI)
  fix j assume "prefix pat (drop j (take n (drop k s)))"
  from occ_take[OF this assms(1)] have "prefix pat (drop (k + j) s)" "j + length pat \<le> n"
    by (simp_all add: add.commute)
  then have "prefix pat (drop (k + j) s)" "k \<le> k + j \<and> k + j < i"
    using assms(3) by simp_all
  then show False using assms(2) by blast
qed (use assms(1) in simp)

lemma contains_middle:
  assumes "\<not> contains s pat"
  shows "s \<noteq> a @ pat @ b"
proof
  assume "s = a @ pat @ b"
  then have "prefix pat (drop (length a) s)" by simp
  then show False using assms unfolding not_contains_iff by blast
qed

lemma open_close_apart:
  assumes o: "prefix ''<table'' (drop s h)" and c: "prefix ''</table>'' (drop e h)" and se: "s \<le> e"
  shows "s + 6 \<le> e"
proof (rule ccontr)
  assume "\<not> s + 6 \<le> e"
  then have i: "e - s < 6" "e = s + (e - s)" using se by simp_all
  obtain r where r: "drop s h = ''<table'' @ r" using o by (auto simp: prefix_def)
  have "drop e h = drop (e - s) (drop s h)" using i(2) by (metis add.commute drop_drop)
  then have d: "drop e h = drop (e - s) (''<table'' @ r)" using r by simp
  from i(1) consider "e - s = 0" | "e - s = 1" | "e - s = 2" | "e - s = 3" | "e - s = 4" | "e - s = 5"
    by linarith
  then show False
    by cases (use c d in \<open>simp_all add: eval_nat_numeral\<close>)
qed


lemma fragment_shape:
  assumes o: "prefix ''<table'' (drop s h)" and c: "prefix ''</table>'' (drop e h)" and se: "s + 6 \<le> e"
  shows "take (e + 8 - s) (drop s h) = ''<table'' @ take (e - s - 6) (drop (s + 6) h) @ ''</table>''"
proof -
  obtain r where r: "drop s h = ''<table'' @ r" using o by (auto simp: prefix_def)
  obtain r2 where r2: "drop e h = ''</table>'' @ r2" using c by (auto simp: prefix_def)
  have "drop 6 (drop s h) = r" unfolding r by simp
  then have r': "r = drop (s + 6) h" by (simp add: add.commute)
  have "drop (e - s - 6) r = drop e h" unfolding r' using se by simp
  then have t8: "take 8 (drop (e - s - 6) r) = ''</table>''" unfolding r2 by simp
  have "take (e + 8 - s) (''<table'' @ r)
        = take (e + 8 - s) ''<table'' @ take (e + 8 - s - length ''<table'') r"
    by (rule take_append)
  moreover have "take (e + 8 - s) ''<table'' = ''<table''"
    by (rule take_all) (use se in simp)
  moreover have "e + 8 - s - length ''<table'' = e + 2 - s" by simp
  ultimately have "take (e + 8 - s) (drop s h) = ''<table'' @ take (e + 2 - s) r"
    unfolding r by simp
  also have "e + 2 - s = (e - s - 6) + 8" using se by simp
  also have "take ((e - s - 6) + 8) r = take (e - s - 6) r @ take 8 (drop (e - s - 6) r)"
    by (rule take_add)
  finally have "take (e + 8 - s) (drop s h) = ''<table'' @ take (e - s - 6) r @ ''</table>''"
    unfolding t8 .
  then show ?thesis unfolding r' .
qed

lemma extract_loop_decomp:
  assumes "k \<le> length html"
  shows "\<exists>ts gaps rest. extract_loop html (int k) acc = Some (acc @ ts) \<and> length gaps = length ts
      \<and> drop k html = concat (map2 (@) gaps ts) @ rest
      \<and> list_all (\<lambda>g. \<not> contains g ''<table'') gaps
      \<and> list_all (\<lambda>t. \<exists>b. t = ''<table'' @ b @ ''</table>'' \<and> \<not> contains (butlast t) ''</table>'') ts
      \<and> (\<forall>a b c. rest \<noteq> a @ ''<table'' @ b @ ''</table>'' @ c)"
  using assms
proof (induction "length html - k" arbitrary: k acc rule: less_induct)
  case less
  let ?d = "drop k html"
  have ne: "''<table'' \<noteq> []" "''</table>'' \<noteq> []" by simp_all
  from ne(1) show ?case
  proof (cases rule: str_find_cases[where s = html and k = k])
    case none
    have 1: "extract_loop html (int k) acc = Some acc"
      by (subst extract_loop.simps) (simp add: none(1))
    have "\<not> contains ?d ''<table''" by (rule not_contains_drop[OF ne(1) none(2)])
    then have 2: "\<forall>a b c. ?d \<noteq> a @ ''<table'' @ b @ ''</table>'' @ c"
      using contains_middle by blast
    show ?thesis
      by (rule exI[of _ "[]"], rule exI[of _ "[]"], rule exI[of _ ?d]) (use 1 2 in simp)
  next
    case (some s)
    note s = this
    from ne(2) show ?thesis
    proof (cases rule: str_find_cases[where s = html and k = s])
      case none
      have 1: "extract_loop html (int k) acc = Some acc"
        by (subst extract_loop.simps) (simp add: s(1) none(1))
      have 2: "\<forall>a b c. ?d \<noteq> a @ ''<table'' @ b @ ''</table>'' @ c"
      proof (intro allI notI)
        fix a b c assume eq: "?d = a @ ''<table'' @ b @ ''</table>'' @ c"
        have "drop (k + length a) html = drop (length a) ?d" by (simp add: add.commute)
        then have o: "prefix ''<table'' (drop (k + length a) html)" unfolding eq by simp
        have "s \<le> k + length a"
        proof (rule ccontr)
          assume "\<not> s \<le> k + length a"
          then have "k \<le> k + length a \<and> k + length a < s" by simp
          then show False using s(5) o by blast
        qed
        then have ge: "s \<le> k + length a + 6 + length b" by simp
        have "?d = (a @ ''<table'' @ b) @ ''</table>'' @ c" using eq by simp
        then have "drop (length (a @ ''<table'' @ b)) ?d = ''</table>'' @ c"
          by (metis append_eq_conv_conj)
        moreover have len: "length (a @ ''<table'' @ b) = length a + 6 + length b" by simp
        ultimately have "drop (length a + 6 + length b) ?d = ''</table>'' @ c"
          unfolding len by blast
        then have "drop (length a + 6 + length b + k) html = ''</table>'' @ c"
          by (simp only: drop_drop)
        moreover have "length a + 6 + length b + k = k + length a + 6 + length b" by simp
        ultimately have "drop (k + length a + 6 + length b) html = ''</table>'' @ c"
          by metis
        then have "prefix ''</table>'' (drop (k + length a + 6 + length b) html)"
          by simp
        then show False using none(2) ge by blast
      qed
      show ?thesis
        by (rule exI[of _ "[]"], rule exI[of _ "[]"], rule exI[of _ ?d]) (use 1 2 in simp)
    next
      case (some e)
      note e = this
      have apart: "s + 6 \<le> e" by (rule open_close_apart[OF s(4) e(4) e(2)])
      let ?t = "take (e + 8 - s) (drop s html)"
      let ?g = "take (s - k) ?d"
      have sl: "slice html (int s) (int e + 8) = ?t"
      proof -
        have "int e + 8 = int (e + 8)" by simp
        then show ?thesis by (simp only: slice_nat)
      qed
      have n: "int s \<noteq> - 1" "int e \<noteq> - 1" "int e + 8 = int (e + 8)" by simp_all
      have "extract_loop html (int k) acc
            = extract_loop html (int e + 8) (acc @ [slice html (int s) (int e + 8)])"
        by (subst extract_loop.simps) (simp only: s(1) e(1) n(1,2) Let_def if_False)
      then have 1: "extract_loop html (int k) acc = extract_loop html (int (e + 8)) (acc @ [?t])"
        unfolding n(3) slice_nat .
      have k': "e + 8 \<le> length html" using e(3) by simp
      have "length html - (e + 8) < length html - k" using e(3) e(2) s(2) by simp
      from less.hyps[OF this k', of "acc @ [?t]"]
      obtain ts gaps rest where ih:
        "extract_loop html (int (e + 8)) (acc @ [?t]) = Some ((acc @ [?t]) @ ts)"
        "length gaps = length ts"
        "drop (e + 8) html = concat (map2 (@) gaps ts) @ rest"
        "list_all (\<lambda>g. \<not> contains g ''<table'') gaps"
        "list_all (\<lambda>t. \<exists>b. t = ''<table'' @ b @ ''</table>'' \<and> \<not> contains (butlast t) ''</table>'') ts"
        "\<forall>a b c. rest \<noteq> a @ ''<table'' @ b @ ''</table>'' @ c"
        by blast
      have g: "\<not> contains ?g ''<table''"
        by (rule not_contains_between[OF ne(1) s(5)]) (use s(2) in simp)
      have shape: "?t = ''<table'' @ take (e - s - 6) (drop (s + 6) html) @ ''</table>''"
        by (rule fragment_shape[OF s(4) e(4) apart])
      have "butlast ?t = take (e + 8 - s - 1) (drop s html)"
        by (rule butlast_take) (use e(3) e(2) in simp)
      moreover have "e + 8 - s - 1 = e + 7 - s" using e(2) by simp
      ultimately have "butlast ?t = take (e + 7 - s) (drop s html)" by metis
      moreover have "\<not> contains (take (e + 7 - s) (drop s html)) ''</table>''"
        by (rule not_contains_between[OF ne(2) e(5)]) (use e(2) in simp)
      ultimately have t: "\<exists>b. ?t = ''<table'' @ b @ ''</table>'' \<and> \<not> contains (butlast ?t) ''</table>''"
        using shape by metis
      have "?d = ?g @ drop (s - k) ?d" by (simp only: append_take_drop_id)
      also have "drop (s - k) ?d = drop s html" using s(2) by simp
      also have "drop s html = ?t @ drop (e + 8 - s) (drop s html)"
        by (simp only: append_take_drop_id)
      also have "drop (e + 8 - s) (drop s html) = drop (e + 8) html" using e(2) by simp
      finally have d: "?d = ?g @ ?t @ drop (e + 8) html" .
      show ?thesis
        apply (rule exI[of _ "?t # ts"], rule exI[of _ "?g # gaps"], rule exI[of _ rest])
        using 1 ih g t d by (simp del: append_take_drop_id)
    qed
  qed
qed

text \<open>
  Claim C5. On every document \<open>extract_tables\<close> returns, and the document is a gap, the
  first fragment, a gap, the second fragment, and so on, then a rest: the fragments are what
  it returns, in that order. No gap holds a \<open><table\<close>; every fragment starts with
  \<open><table\<close> and ends with the first \<open></table>\<close> after that start (there is none before the
  fragment's end), so a nested table is cut at the first closing tag; the rest holds no
  \<open><table\<close> that a \<open></table>\<close> follows, so a trailing table that is not closed is dropped.
\<close>

theorem extract_tables_fragments:
  "(\<exists>ts gaps rest.
      extract_tables html = Some ts \<and> length gaps = length ts
      \<and> html = concat (map2 (@) gaps ts) @ rest
      \<and> list_all (\<lambda>g. \<not> contains g ''<table'') gaps
      \<and> list_all (\<lambda>t. \<exists>b. t = ''<table'' @ b @ ''</table>'' \<and> \<not> contains (butlast t) ''</table>'') ts
      \<and> (\<forall>a b c. rest \<noteq> a @ ''<table'' @ b @ ''</table>'' @ c))
   \<and> extract_tables ''<p><table>a</table>b<table>c</table>d'' = Some [''<table>a</table>'', ''<table>c</table>'']
   \<and> extract_tables ''<table><table>x</table>y</table>'' = Some [''<table><table>x</table>'']
   \<and> extract_tables ''<table>a</table><table>b'' = Some [''<table>a</table>'']"
proof (intro conjI)
  show "\<exists>ts gaps rest.
      extract_tables html = Some ts \<and> length gaps = length ts
      \<and> html = concat (map2 (@) gaps ts) @ rest
      \<and> list_all (\<lambda>g. \<not> contains g ''<table'') gaps
      \<and> list_all (\<lambda>t. \<exists>b. t = ''<table'' @ b @ ''</table>'' \<and> \<not> contains (butlast t) ''</table>'') ts
      \<and> (\<forall>a b c. rest \<noteq> a @ ''<table'' @ b @ ''</table>'' @ c)"
    using extract_loop_decomp[of 0 html "[]"] by (simp add: extract_tables_def)
qed code_simp+

theorem extract_tables_fragments_witness:
  "\<exists>ts gaps rest.
      extract_tables ''<p><table>a</table>b<table>c'' = Some ts \<and> length gaps = length ts
      \<and> ''<p><table>a</table>b<table>c'' = concat (map2 (@) gaps ts) @ rest
      \<and> list_all (\<lambda>g. \<not> contains g ''<table'') gaps
      \<and> list_all (\<lambda>t. \<exists>b. t = ''<table'' @ b @ ''</table>'' \<and> \<not> contains (butlast t) ''</table>'') ts
      \<and> (\<forall>a b c. rest \<noteq> a @ ''<table'' @ b @ ''</table>'' @ c)"
  by (rule conjunct1[OF extract_tables_fragments])

section \<open>Rows that are not closed\<close>

text \<open>
  A \<open><tr\<close> after which no \<open></tr>\<close> comes ends the row scan: the fragment is parsed as if it
  ended before that \<open><tr\<close>. When the part before it parses to rows, the loop of \<open>main\<close> writes
  those rows.
\<close>

lemma unclosed_row_ignored:
  assumes "\<not> contains (''<tr'' @ v) ''</tr>''"
  shows "parse_table (p @ ''<tr'' @ v) = parse_table p"
  using parse_rows_unclosed[OF assms, of 0 p "[]"] by (simp add: parse_table_def)

lemma unclosed_row_written:
  assumes "\<not> contains (''<tr'' @ v) ''</tr>''" "parse_table p = Some rows" "rows \<noteq> []"
  shows "\<exists>w2. main_loop [(i, p @ ''<tr'' @ v)] w = Some w2
           \<and> writes w2 = writes w @ [(''output_'' @ str_nat i @ ''.csv'', csv_text rows)]"
proof -
  have "parse_table (p @ ''<tr'' @ v) = Some rows"
    using unclosed_row_ignored[OF assms(1), of p] assms(2) by simp
  then have "main_loop [(i, p @ ''<tr'' @ v)] w
             = Some (save_csv rows (''output_'' @ str_nat i @ ''.csv'') w)"
    using assms(3) by (simp del: append.simps)
  then show ?thesis by (simp add: save_csv_def print_def write_file_def)
qed

section \<open>Cells that are not closed\<close>

lemma parse_cells_stuck:
  assumes td: "str_find row ''<td'' 4 = t" "t \<noteq> - 1"
    and th: "str_find row ''<th'' 4 = - 1 \<or> t < str_find row ''<th'' 4"
    and close: "str_find row ''</td>'' (str_find row ''>'' t + 1) = - 1"
  shows "parse_cells row 4 cells = None"
proof (cases "parse_cells row 4 cells")
  case None
  then show ?thesis .
next
  case (Some y)
  obtain cleaned where c:
    "clean_html (str_strip (slice row (str_find row ''>'' t + 1) (- 1))) = Some cleaned"
    by (simp add: clean_html_eq)
  have "\<not> (row = row \<and> (4::int) = 4)"
  proof (rule parse_cells.raw_induct[where P = "\<lambda>r pos cs y. \<not> (r = row \<and> pos = 4)", OF _ Some])
    fix f :: "string \<Rightarrow> int \<Rightarrow> string list \<Rightarrow> string list option"
      and r pos cs y
    assume IH: "\<And>r pos cs y. f r pos cs = Some y \<Longrightarrow> \<not> (r = row \<and> pos = 4)"
    assume step: "(let td_start = str_find r ''<td'' pos;
          th_start = str_find r ''<th'' pos
      in if td_start = - 1 \<and> th_start = - 1 then Some cs
         else if td_start \<noteq> - 1 \<and> (td_start < th_start \<or> th_start = - 1)
              then let cell_start = str_find r ''>'' td_start + 1;
                       cell_end = str_find r ''</td>'' cell_start;
                       cell = str_strip (slice r cell_start cell_end)
                   in case clean_html cell of None \<Rightarrow> None
                      | Some cleaned \<Rightarrow> f r (cell_end + 5) (cs @ [cleaned])
              else let cell_start = str_find r ''>'' th_start + 1;
                       cell_end = str_find r ''</th>'' cell_start;
                       cell = str_strip (slice r cell_start cell_end)
                   in case clean_html cell of None \<Rightarrow> None
                      | Some cleaned \<Rightarrow> f r (cell_end + 5) (cs @ [cleaned])) =
     Some y"
    show "\<not> (r = row \<and> pos = 4)"
    proof
      assume rp: "r = row \<and> pos = 4"
      from step have "f row 4 (cs @ [cleaned]) = Some y"
        using rp td th close c by (auto simp: Let_def)
      from IH[OF this] show False by simp
    qed
  qed
  then show ?thesis by simp
qed

lemma parse_cells_stuck_th:
  assumes th: "str_find row ''<th'' 4 = t" "t \<noteq> - 1"
    and td: "str_find row ''<td'' 4 = - 1 \<or> t < str_find row ''<td'' 4"
    and close: "str_find row ''</th>'' (str_find row ''>'' t + 1) = - 1"
  shows "parse_cells row 4 cells = None"
proof (cases "parse_cells row 4 cells")
  case None
  then show ?thesis .
next
  case (Some y)
  obtain cleaned where c:
    "clean_html (str_strip (slice row (str_find row ''>'' t + 1) (- 1))) = Some cleaned"
    by (simp add: clean_html_eq)
  have "\<not> (row = row \<and> (4::int) = 4)"
  proof (rule parse_cells.raw_induct[where P = "\<lambda>r pos cs y. \<not> (r = row \<and> pos = 4)", OF _ Some])
    fix f :: "string \<Rightarrow> int \<Rightarrow> string list \<Rightarrow> string list option"
      and r pos cs y
    assume IH: "\<And>r pos cs y. f r pos cs = Some y \<Longrightarrow> \<not> (r = row \<and> pos = 4)"
    assume step: "(let td_start = str_find r ''<td'' pos;
          th_start = str_find r ''<th'' pos
      in if td_start = - 1 \<and> th_start = - 1 then Some cs
         else if td_start \<noteq> - 1 \<and> (td_start < th_start \<or> th_start = - 1)
              then let cell_start = str_find r ''>'' td_start + 1;
                       cell_end = str_find r ''</td>'' cell_start;
                       cell = str_strip (slice r cell_start cell_end)
                   in case clean_html cell of None \<Rightarrow> None
                      | Some cleaned \<Rightarrow> f r (cell_end + 5) (cs @ [cleaned])
              else let cell_start = str_find r ''>'' th_start + 1;
                       cell_end = str_find r ''</th>'' cell_start;
                       cell = str_strip (slice r cell_start cell_end)
                   in case clean_html cell of None \<Rightarrow> None
                      | Some cleaned \<Rightarrow> f r (cell_end + 5) (cs @ [cleaned])) =
     Some y"
    show "\<not> (r = row \<and> pos = 4)"
    proof
      assume rp: "r = row \<and> pos = 4"
      from step have "f row 4 (cs @ [cleaned]) = Some y"
        using rp td th close c by (auto simp: Let_def)
      from IH[OF this] show False by simp
    qed
  qed
  then show ?thesis by simp
qed

lemma unclosed_td_row:
  "parse_cells ''<tr><td>x'' 0 [] = None"
proof -
  let ?row = "''<tr><td>x''"
  have a: "str_find ?row ''<td'' 4 = 4" "str_find ?row ''<th'' 4 = - 1"
     "str_find ?row ''</td>'' (str_find ?row ''>'' 4 + 1) = - 1"
    by code_simp+
  have stuck: "parse_cells ?row 4 cells = None" for cells
    by (rule parse_cells_stuck[where t = 4]) (simp_all add: a)
  have b: "str_find ?row ''<td'' 0 = 4" "str_find ?row ''<th'' 0 = - 1" by code_simp+
  show ?thesis
    by (subst parse_cells.simps) (simp add: a b stuck Let_def split: option.split)
qed

lemma unclosed_th_row:
  "parse_cells ''<tr><th>x'' 0 [] = None"
proof -
  let ?row = "''<tr><th>x''"
  have a: "str_find ?row ''<th'' 4 = 4" "str_find ?row ''<td'' 4 = - 1"
     "str_find ?row ''</th>'' (str_find ?row ''>'' 4 + 1) = - 1"
    by code_simp+
  have stuck: "parse_cells ?row 4 cells = None" for cells
    by (rule parse_cells_stuck_th[where t = 4]) (simp_all add: a)
  have b: "str_find ?row ''<th'' 0 = 4" "str_find ?row ''<td'' 0 = - 1" by code_simp+
  show ?thesis
    by (subst parse_cells.simps) (simp add: a b stuck Let_def split: option.split)
qed

text \<open>
  Claim C9 says that the row and cell parser returns on every fragment. It does not: a cell
  marker whose closing tag is missing sends the cell loop back to position 4 of the row for
  ever (\<open>cell_end\<close> is \<open>-1\<close>, so \<open>cell_pos\<close> becomes 4), and neither \<open>parse_table\<close> nor
  \<open>main\<close> returns.
\<close>

theorem parse_table_unclosed_cell_diverges:
  "parse_table ''<table><tr><td>x</tr></table>'' = None
   \<and> parse_table ''<table><tr><th>x</tr></table>'' = None
   \<and> main \<lparr>url_get = (\<lambda>u. None), path_exists = (\<lambda>p. True),
            file_read = (\<lambda>p. Some ''<table><tr><td>x</tr></table>'')\<rparr>
        [''project1.py'', ''a.html''] \<lparr>writes = [], printed = []\<rparr> = None"
proof (intro conjI)
  have c: "str_find ''<table><tr><td>x</tr></table>'' ''<tr'' 0 = 7"
    "str_find ''<table><tr><td>x</tr></table>'' ''</tr>'' 7 = 16"
    "slice ''<table><tr><td>x</tr></table>'' 7 16 = ''<tr><td>x''"
    by code_simp+
  show 1: "parse_table ''<table><tr><td>x</tr></table>'' = None"
    unfolding parse_table_def
    by (subst parse_rows.simps) (simp add: c unclosed_td_row Let_def)
  have d: "str_find ''<table><tr><th>x</tr></table>'' ''<tr'' 0 = 7"
    "str_find ''<table><tr><th>x</tr></table>'' ''</tr>'' 7 = 16"
    "slice ''<table><tr><th>x</tr></table>'' 7 16 = ''<tr><th>x''"
    by code_simp+
  show "parse_table ''<table><tr><th>x</tr></table>'' = None"
    unfolding parse_table_def
    by (subst parse_rows.simps) (simp add: d unclosed_th_row Let_def)
  have x: "extract_tables ''<table><tr><td>x</tr></table>'' = Some [''<table><tr><td>x</tr></table>'']"
    by code_simp
  show "main \<lparr>url_get = (\<lambda>u. None), path_exists = (\<lambda>p. True),
            file_read = (\<lambda>p. Some ''<table><tr><td>x</tr></table>'')\<rparr>
        [''project1.py'', ''a.html''] \<lparr>writes = [], printed = []\<rparr> = None"
    by (simp add: main_def fetch_html_def x 1)
qed

text \<open>
  Claim C8 says that at a \<open><tr\<close> with no \<open></tr>\<close> after it the rows before it are still
  captured and written. They are not when one of them has a cell that is not closed, the
  defect of claim C9: in \<open><table><tr><td>x</tr><tr><td>b</td></table>\<close> the second \<open><tr\<close> is
  not closed, the cell loop never leaves the first row, and neither \<open>parse_table\<close> nor
  \<open>main\<close> returns, so no row is captured and nothing is written.
\<close>

theorem parse_table_unclosed_row_hangs:
  "\<not> contains (''<tr'' @ ''><td>b</td></table>'') ''</tr>''
   \<and> ''<table><tr><td>x</tr>'' @ ''<tr'' @ ''><td>b</td></table>''
       = ''<table><tr><td>x</tr><tr><td>b</td></table>''
   \<and> parse_table ''<table><tr><td>x</tr><tr><td>b</td></table>'' = None
   \<and> main \<lparr>url_get = (\<lambda>u. None), path_exists = (\<lambda>p. True),
            file_read = (\<lambda>p. Some ''<table><tr><td>x</tr><tr><td>b</td></table>'')\<rparr>
        [''project1.py'', ''a.html''] \<lparr>writes = [], printed = []\<rparr> = None"
proof (intro conjI)
  show "\<not> contains (''<tr'' @ ''><td>b</td></table>'') ''</tr>''" by code_simp
  show "''<table><tr><td>x</tr>'' @ ''<tr'' @ ''><td>b</td></table>''
       = ''<table><tr><td>x</tr><tr><td>b</td></table>''" by simp
  have c: "str_find ''<table><tr><td>x</tr><tr><td>b</td></table>'' ''<tr'' 0 = 7"
    "str_find ''<table><tr><td>x</tr><tr><td>b</td></table>'' ''</tr>'' 7 = 16"
    "slice ''<table><tr><td>x</tr><tr><td>b</td></table>'' 7 16 = ''<tr><td>x''"
    by code_simp+
  show 1: "parse_table ''<table><tr><td>x</tr><tr><td>b</td></table>'' = None"
    unfolding parse_table_def
    by (subst parse_rows.simps) (simp add: c unclosed_td_row Let_def)
  have x: "extract_tables ''<table><tr><td>x</tr><tr><td>b</td></table>''
           = Some [''<table><tr><td>x</tr><tr><td>b</td></table>'']"
    by code_simp
  show "main \<lparr>url_get = (\<lambda>u. None), path_exists = (\<lambda>p. True),
            file_read = (\<lambda>p. Some ''<table><tr><td>x</tr><tr><td>b</td></table>'')\<rparr>
        [''project1.py'', ''a.html''] \<lparr>writes = [], printed = []\<rparr> = None"
    by (simp add: main_def fetch_html_def x 1)
qed

section \<open>What the program writes and how it ends\<close>

lemma main_usage:
  "length argv \<noteq> 2 \<Longrightarrow> main e argv w = Some (SysExit 1, print usage w)"
  by (simp add: main_def)

lemma main_not_found:
  assumes "length argv = 2" "\<not> prefix ''http://'' (argv ! 1)" "\<not> prefix ''https://'' (argv ! 1)"
    "\<not> path_exists e (argv ! 1)"
  shows "main e argv w = Some (SysExit 1, print ''Error: source not found.'' w)"
  using assms by (simp add: main_def fetch_html_def)

lemma main_no_tables:
  assumes "length argv = 2" "fetch_html e (argv ! 1) w = (Inr html, w1)" "extract_tables html = Some []"
  shows "main e argv w = Some (SysExit 1, print ''No tables found in the HTML.'' w1)"
  using assms by (simp add: main_def)

lemma fetch_html_writes:
  assumes "fetch_html e source w = (Inr html, w1)"
  shows "writes w1 = writes w \<or> writes w1 = writes w @ [(''page.html'', html)]"
  using assms
  by (auto simp: fetch_html_def print_def write_file_def split: if_splits option.splits)

lemma main_loop_eq:
  assumes "list_all2 (\<lambda>t g. parse_table t = Some g) tables grids"
  shows "\<exists>w2. main_loop (enumerate n tables) w = Some w2 \<and>
          writes w2 = writes w @ map (\<lambda>(i, g). (''output_'' @ str_nat i @ ''.csv'', csv_text g))
                                  (filter (\<lambda>(i, g). g \<noteq> []) (enumerate n grids))"
  using assms
proof (induction tables grids arbitrary: n w rule: list_all2_induct)
  case Nil
  then show ?case by simp
next
  case (Cons t ts g gs)
  show ?case
  proof (cases "g = []")
    case True
    then show ?thesis using Cons.hyps(1) Cons.IH[of "Suc n" w] by simp
  next
    case False
    let ?w = "save_csv g (''output_'' @ str_nat n @ ''.csv'') w"
    obtain w2 where "main_loop (enumerate (Suc n) ts) ?w = Some w2"
      "writes w2 = writes ?w @ map (\<lambda>(i, g). (''output_'' @ str_nat i @ ''.csv'', csv_text g))
                                  (filter (\<lambda>(i, g). g \<noteq> []) (enumerate (Suc n) gs))"
      using Cons.IH[of "Suc n" ?w] by blast
    then show ?thesis using False Cons.hyps(1)
      by (simp add: save_csv_def print_def write_file_def)
  qed
qed


lemma extract_tables_no_open:
  assumes "\<not> contains html ''<table''"
  shows "extract_tables html = Some []"
proof -
  have "str_find html ''<table'' 0 = - 1"
    using assms str_find_nat[of html "''<table''" 0] by (simp add: contains_def)
  then show ?thesis
    unfolding extract_tables_def by (subst extract_loop.simps) simp
qed

text \<open>
  Claim C7, as amended. The program exits with status 1 after printing one message in each
  of three cases: the usage message when the argument count is wrong, \<open>Error: source not
  found.\<close> when the source is neither a URL nor an existing path, and \<open>No tables found in
  the HTML.\<close> when the extractor finds no table (as when the document holds no
  \<open><table\<close>). In the last case nothing is written but the copy \<open>page.html\<close> of a fetched URL,
  so no CSV file.
\<close>

theorem main_exit_status_1:
  "(length argv \<noteq> 2 \<longrightarrow>
      main e argv w = Some (SysExit 1, w\<lparr>printed := printed w @ [usage]\<rparr>))
   \<and> (length argv = 2 \<and> \<not> prefix ''http://'' (argv ! 1) \<and> \<not> prefix ''https://'' (argv ! 1)
        \<and> \<not> path_exists e (argv ! 1) \<longrightarrow>
      main e argv w = Some (SysExit 1, w\<lparr>printed := printed w @ [''Error: source not found.'']\<rparr>))
   \<and> (length argv = 2 \<and> fetch_html e (argv ! 1) w = (Inr html, w1)
        \<and> (extract_tables html = Some [] \<or> \<not> contains html ''<table'') \<longrightarrow>
      main e argv w = Some (SysExit 1, w1\<lparr>printed := printed w1 @ [''No tables found in the HTML.'']\<rparr>)
      \<and> (writes w1 = writes w \<or> writes w1 = writes w @ [(''page.html'', html)]))"
proof (intro conjI impI)
  assume "length argv \<noteq> 2"
  then show "main e argv w = Some (SysExit 1, w\<lparr>printed := printed w @ [usage]\<rparr>)"
    by (simp add: main_usage print_def)
next
  assume "length argv = 2 \<and> \<not> prefix ''http://'' (argv ! 1) \<and> \<not> prefix ''https://'' (argv ! 1)
        \<and> \<not> path_exists e (argv ! 1)"
  then show "main e argv w = Some (SysExit 1, w\<lparr>printed := printed w @ [''Error: source not found.'']\<rparr>)"
    by (simp add: main_not_found print_def)
next
  assume h: "length argv = 2 \<and> fetch_html e (argv ! 1) w = (Inr html, w1)
        \<and> (extract_tables html = Some [] \<or> \<not> contains html ''<table'')"
  then have "extract_tables html = Some []" using extract_tables_no_open by blast
  then show "main e argv w = Some (SysExit 1, w1\<lparr>printed := printed w1 @ [''No tables found in the HTML.'']\<rparr>)"
    using h by (simp add: main_no_tables print_def)
  show "writes w1 = writes w \<or> writes w1 = writes w @ [(''page.html'', html)]"
    using h fetch_html_writes by blast
qed

theorem main_exit_status_1_witness:
  "length [''project1.py''] \<noteq> 2
   \<and> main \<lparr>url_get = (\<lambda>u. None), path_exists = (\<lambda>p. p = ''a.html''), file_read = (\<lambda>p. Some ''<p>no table</p>'')\<rparr>
        [''project1.py''] \<lparr>writes = [], printed = []\<rparr>
      = Some (SysExit 1, \<lparr>writes = [], printed = [usage]\<rparr>)
   \<and> \<not> path_exists \<lparr>url_get = (\<lambda>u. None), path_exists = (\<lambda>p. p = ''a.html''), file_read = (\<lambda>p. Some ''<p>no table</p>'')\<rparr> ''b.html''
   \<and> main \<lparr>url_get = (\<lambda>u. None), path_exists = (\<lambda>p. p = ''a.html''), file_read = (\<lambda>p. Some ''<p>no table</p>'')\<rparr>
        [''project1.py'', ''b.html''] \<lparr>writes = [], printed = []\<rparr>
      = Some (SysExit 1, \<lparr>writes = [], printed = [''Error: source not found.'']\<rparr>)
   \<and> extract_tables ''<p>no table</p>'' = Some []
   \<and> main \<lparr>url_get = (\<lambda>u. None), path_exists = (\<lambda>p. p = ''a.html''), file_read = (\<lambda>p. Some ''<p>no table</p>'')\<rparr>
        [''project1.py'', ''a.html''] \<lparr>writes = [], printed = []\<rparr>
      = Some (SysExit 1, \<lparr>writes = [], printed = [''No tables found in the HTML.'']\<rparr>)"
proof -
  let ?e = "\<lparr>url_get = (\<lambda>u. None), path_exists = (\<lambda>p. p = ''a.html''),
             file_read = (\<lambda>p. Some ''<p>no table</p>'')\<rparr>"
  let ?w = "\<lparr>writes = [], printed = []\<rparr>"
  have 1: "main ?e [''project1.py''] ?w = Some (SysExit 1, \<lparr>writes = [], printed = [usage]\<rparr>)"
    using main_exit_status_1[of "[''project1.py'']" ?e ?w] by simp
  have 2: "main ?e [''project1.py'', ''b.html''] ?w
           = Some (SysExit 1, \<lparr>writes = [], printed = [''Error: source not found.'']\<rparr>)"
    using main_exit_status_1[of "[''project1.py'', ''b.html'']" ?e ?w] by simp
  have x: "extract_tables ''<p>no table</p>'' = Some []" by code_simp
  have f: "fetch_html ?e ''a.html'' ?w = (Inr ''<p>no table</p>'', ?w)"
    by (simp add: fetch_html_def)
  have 3: "main ?e [''project1.py'', ''a.html''] ?w
           = Some (SysExit 1, \<lparr>writes = [], printed = [''No tables found in the HTML.'']\<rparr>)"
    using main_exit_status_1[of "[''project1.py'', ''a.html'']" ?e ?w "''<p>no table</p>''" ?w] x f
    by simp
  show ?thesis using 1 2 3 x by simp
qed

text \<open>
  Claim C7 as stated asks for the usage message in all three cases. For a source that is
  not found the message is another one.
\<close>

theorem main_not_found_counterexample:
  "main \<lparr>url_get = (\<lambda>u. None), path_exists = (\<lambda>p. False), file_read = (\<lambda>p. None)\<rparr>
     [''project1.py'', ''missing.html''] \<lparr>writes = [], printed = []\<rparr>
   = Some (SysExit 1, \<lparr>writes = [], printed = [''Error: source not found.'']\<rparr>)
   \<and> usage \<notin> set [''Error: source not found.'']"
  by (simp add: main_def fetch_html_def print_def usage_def)


lemma main_tables:
  assumes "length argv = 2" "fetch_html e (argv ! 1) w = (Inr html, w1)"
    "extract_tables html = Some tables" "tables \<noteq> []"
    "list_all2 (\<lambda>t g. parse_table t = Some g) tables grids"
  shows "\<exists>w2. main e argv w = Some (Returned, w2) \<and>
          writes w2 = writes w1 @ map (\<lambda>(i, g). (''output_'' @ str_nat i @ ''.csv'', csv_text g))
                                   (filter (\<lambda>(i, g). g \<noteq> []) (enumerate 1 grids))"
proof -
  obtain w2 where "main_loop (enumerate 1 tables) w1 = Some w2"
    "writes w2 = writes w1 @ map (\<lambda>(i, g). (''output_'' @ str_nat i @ ''.csv'', csv_text g))
                                   (filter (\<lambda>(i, g). g \<noteq> []) (enumerate 1 grids))"
    using main_loop_eq[OF assms(5), of 1 w1] by blast
  then show ?thesis using assms(1-4) by (simp add: main_def)
qed

lemma str_nat_digits:
  "str_nat (Suc 0) = ''1''" "str_nat (Suc (Suc 0)) = ''2''" "str_nat (Suc (Suc (Suc 0))) = ''3''"
  by (simp_all add: str_nat.simps)

text \<open>
  Claim C6, as amended. When every table's parse returns, \<open>main\<close> writes one file per table
  with at least one row, in document order, named \<open>output_<i>.csv\<close> with \<open>i\<close> the table's
  1-based index among all tables found: a table with no row is skipped and its index is not
  reused. With two tables, the first with at least one row and the second with none, the only
  file is \<open>output_1.csv\<close>; with three, the second empty, the files are \<open>output_1.csv\<close> and
  \<open>output_3.csv\<close>.
\<close>

theorem main_output_names:
  "(length argv = 2 \<and> fetch_html e (argv ! 1) w = (Inr html, w1)
      \<and> extract_tables html = Some tables \<and> tables \<noteq> []
      \<and> list_all2 (\<lambda>t g. parse_table t = Some g) tables grids \<longrightarrow>
    (\<exists>w2. main e argv w = Some (Returned, w2) \<and>
       writes w2 = writes w1 @ map (\<lambda>(i, g). (''output_'' @ str_nat i @ ''.csv'', csv_text g))
                                (filter (\<lambda>(i, g). g \<noteq> []) (enumerate 1 grids))))
   \<and> (length argv = 2 \<and> fetch_html e (argv ! 1) w = (Inr html, w1)
      \<and> extract_tables html = Some [t1, t2]
      \<and> parse_table t1 = Some g1 \<and> g1 \<noteq> [] \<and> parse_table t2 = Some [] \<longrightarrow>
    (\<exists>w2. main e argv w = Some (Returned, w2) \<and>
       writes w2 = writes w1 @ [(''output_1.csv'', csv_text g1)]))
   \<and> (length argv = 2 \<and> fetch_html e (argv ! 1) w = (Inr html, w1)
      \<and> extract_tables html = Some [t1, t2, t3]
      \<and> parse_table t1 = Some g1 \<and> g1 \<noteq> [] \<and> parse_table t2 = Some []
      \<and> parse_table t3 = Some g3 \<and> g3 \<noteq> [] \<longrightarrow>
    (\<exists>w2. main e argv w = Some (Returned, w2) \<and>
       writes w2 = writes w1 @ [(''output_1.csv'', csv_text g1), (''output_3.csv'', csv_text g3)]))"
proof (intro conjI impI)
  assume "length argv = 2 \<and> fetch_html e (argv ! 1) w = (Inr html, w1)
      \<and> extract_tables html = Some tables \<and> tables \<noteq> []
      \<and> list_all2 (\<lambda>t g. parse_table t = Some g) tables grids"
  then show "\<exists>w2. main e argv w = Some (Returned, w2) \<and>
       writes w2 = writes w1 @ map (\<lambda>(i, g). (''output_'' @ str_nat i @ ''.csv'', csv_text g))
                                (filter (\<lambda>(i, g). g \<noteq> []) (enumerate 1 grids))"
    using main_tables by blast
next
  assume h: "length argv = 2 \<and> fetch_html e (argv ! 1) w = (Inr html, w1)
      \<and> extract_tables html = Some [t1, t2]
      \<and> parse_table t1 = Some g1 \<and> g1 \<noteq> [] \<and> parse_table t2 = Some []"
  then have "list_all2 (\<lambda>t g. parse_table t = Some g) [t1, t2] [g1, []]" by simp
  from main_tables[OF _ _ _ _ this, of argv e w html w1] h
  show "\<exists>w2. main e argv w = Some (Returned, w2) \<and>
       writes w2 = writes w1 @ [(''output_1.csv'', csv_text g1)]"
    by (simp add: str_nat_digits)
next
  assume h: "length argv = 2 \<and> fetch_html e (argv ! 1) w = (Inr html, w1)
      \<and> extract_tables html = Some [t1, t2, t3]
      \<and> parse_table t1 = Some g1 \<and> g1 \<noteq> [] \<and> parse_table t2 = Some []
      \<and> parse_table t3 = Some g3 \<and> g3 \<noteq> []"
  then have "list_all2 (\<lambda>t g. parse_table t = Some g) [t1, t2, t3] [g1, [], g3]" by simp
  from main_tables[OF _ _ _ _ this, of argv e w html w1] h
  show "\<exists>w2. main e argv w = Some (Returned, w2) \<and>
       writes w2 = writes w1 @ [(''output_1.csv'', csv_text g1), (''output_3.csv'', csv_text g3)]"
    by (simp add: str_nat_digits eval_nat_numeral)
qed

lemma two_tables_facts:
  "extract_tables ''<table><tr><td>a</td></tr></table><table></table>''
     = Some [''<table><tr><td>a</td></tr></table>'', ''<table></table>'']"
  "parse_table ''<table><tr><td>a</td></tr></table>'' = Some [[''a'']]"
  "parse_table ''<table></table>'' = Some []"
  by code_simp+

theorem main_output_names_witness:
  "extract_tables ''<table><tr><td>a</td></tr></table><table></table>''
     = Some [''<table><tr><td>a</td></tr></table>'', ''<table></table>'']
   \<and> parse_table ''<table><tr><td>a</td></tr></table>'' = Some [[''a'']]
   \<and> parse_table ''<table></table>'' = Some []
   \<and> (\<exists>w2. main \<lparr>url_get = (\<lambda>u. None), path_exists = (\<lambda>p. True),
                  file_read = (\<lambda>p. Some ''<table><tr><td>a</td></tr></table><table></table>'')\<rparr>
              [''project1.py'', ''a.html''] \<lparr>writes = [], printed = []\<rparr> = Some (Returned, w2)
          \<and> writes w2 = [(''output_1.csv'', csv_text [[''a'']])])"
proof -
  let ?html = "''<table><tr><td>a</td></tr></table><table></table>''"
  let ?e = "\<lparr>url_get = (\<lambda>u. None), path_exists = (\<lambda>p. True), file_read = (\<lambda>p. Some ?html)\<rparr>"
  let ?w = "\<lparr>writes = [], printed = []\<rparr>"
  have f: "fetch_html ?e ([''project1.py'', ''a.html''] ! 1) ?w = (Inr ?html, ?w)"
    by (simp add: fetch_html_def)
  have "\<exists>w2. main ?e [''project1.py'', ''a.html''] ?w = Some (Returned, w2)
          \<and> writes w2 = writes ?w @ [(''output_1.csv'', csv_text [[''a'']])]"
    using main_output_names[of "[''project1.py'', ''a.html'']" ?e ?w ?html ?w _ _
        "''<table><tr><td>a</td></tr></table>''" "''<table></table>''" "[[''a'']]"]
      f two_tables_facts
    by simp
  then show ?thesis using two_tables_facts by simp
qed

text \<open>
  Claim C6 as stated promises \<open>output_1.csv\<close> for every input with two tables whose second
  has no row. When the first has no row either, nothing is written.
\<close>

theorem main_two_empty_tables_counterexample:
  "extract_tables ''<table></table><table></table>'' = Some [''<table></table>'', ''<table></table>'']
   \<and> parse_table ''<table></table>'' = Some []
   \<and> main \<lparr>url_get = (\<lambda>u. None), path_exists = (\<lambda>p. True),
            file_read = (\<lambda>p. Some ''<table></table><table></table>'')\<rparr>
        [''project1.py'', ''a.html''] \<lparr>writes = [], printed = []\<rparr>
      = Some (Returned, \<lparr>writes = [], printed = []\<rparr>)"
  by code_simp

section \<open>Well-formed tables are parsed row by row\<close>

lemma str_find_skip:
  assumes pat: "pat = c # r" "c \<notin> set r" and g: "\<not> contains g pat" and y: "prefix pat y"
  shows "str_find (x @ g @ y) pat (int (length x)) = int (length x + length g)"
proof -
  obtain y' where y': "y = c # y'" using y pat by (cases y) auto
  show ?thesis
  proof (rule str_find_eqI)
    show "prefix pat (drop (length x + length g) (x @ g @ y))" using y by simp
    show "\<forall>j. length x \<le> j \<and> j < length x + length g \<longrightarrow> \<not> prefix pat (drop j (x @ g @ y))"
    proof (intro allI impI)
      fix j assume j: "length x \<le> j \<and> j < length x + length g"
      then have "j - length x < length g" by auto
      from occ_straddle[OF pat y' this]
      have "prefix pat (drop (j - length x) (g @ y)) = prefix pat (drop (j - length x) g)" .
      moreover have "drop j (x @ g @ y) = drop (j - length x) (g @ y)" using j by simp
      ultimately show "\<not> prefix pat (drop j (x @ g @ y))"
        using g unfolding not_contains_iff by simp
    qed
  qed simp_all
qed

lemma str_find_none_suffix:
  assumes "pat \<noteq> []" "\<not> contains y pat"
  shows "str_find (x @ y) pat (int (length x)) = - 1"
  by (rule str_find_after_none[OF assms]) simp

lemma slice_middle:
  "slice (x @ m @ y) (int (length x)) (int (length x + length m)) = m"
  unfolding slice_nat by simp

lemma not_contains_append:
  assumes pat: "pat = c # r" "c \<notin> set r" and a: "\<not> contains a pat" and b: "\<not> contains b pat"
    and bs: "b = c # b'"
  shows "\<not> contains (a @ b) pat"
  unfolding not_contains_iff
proof (intro conjI allI)
  fix j
  show "\<not> prefix pat (drop j (a @ b))"
  proof (cases "j < length a")
    case True
    from occ_straddle[OF pat bs True] a show ?thesis unfolding not_contains_iff by simp
  next
    case False
    then show ?thesis using b unfolding not_contains_iff by simp
  qed
qed (use pat in simp)

lemma clean_html_text: "clean_html t = Some (clean_text t)"
  by (simp add: clean_html_eq clean_text_def)


lemma other_marker_later:
  assumes pat: "pat = c # r" "c \<notin> set r" and g: "\<not> contains g pat"
    and y: "y = c # y'" "\<not> prefix pat y"
  shows "str_find (x @ g @ y) pat (int (length x)) = - 1
         \<or> int (length x + length g) < str_find (x @ g @ y) pat (int (length x))"
proof -
  have ne: "pat \<noteq> []" using pat by simp
  from ne show ?thesis
  proof (cases rule: str_find_cases[where s = "x @ g @ y" and k = "length x"])
    case none
    then show ?thesis by simp
  next
    case (some i)
    have "\<not> i < length x + length g"
    proof
      assume lt: "i < length x + length g"
      then have "i - length x < length g" using some(2) by auto
      from occ_straddle[OF pat y(1) this]
      have "prefix pat (drop (i - length x) (g @ y)) = prefix pat (drop (i - length x) g)" .
      moreover have "drop i (x @ g @ y) = drop (i - length x) (g @ y)" using some(2) by simp
      ultimately show False using some(4) g unfolding not_contains_iff by simp
    qed
    moreover have "i \<noteq> length x + length g"
    proof
      assume "i = length x + length g"
      then have "drop i (x @ g @ y) = y" by simp
      then show False using some(4) y(2) by simp
    qed
    ultimately have "length x + length g < i" by simp
    then show ?thesis using some(1) by simp
  qed
qed

lemma cell_step:
  assumes wf: "wf_cell c"
  shows "parse_cells (x @ render_cell c @ rest) (int (length x)) acc
         = parse_cells (x @ render_cell c @ rest) (int (length (x @ render_cell c))) (acc @ [cell_value c])"
proof (cases "c_header c")
  case False
  let ?b = "c_before c" and ?a = "c_attrs c" and ?ct = "c_content c"
  let ?row = "x @ render_cell c @ rest"
  have rc: "render_cell c = ?b @ ''<td'' @ ?a @ ''>'' @ ?ct @ ''</td>''"
    using False by (simp add: render_cell_def open_tag_def close_tag_def)
  have w: "\<not> contains ?b ''<td''" "\<not> contains ?b ''<th''" "CHR ''>'' \<notin> set ?a"
    "\<not> contains ?ct ''</td>''"
    using wf False by (simp_all add: wf_cell_def close_tag_def)
  let ?t = "length x + length ?b"
  have row1: "?row = x @ ?b @ (''<td'' @ ?a @ ''>'' @ ?ct @ ''</td>'' @ rest)"
    by (simp add: rc)
  have f1: "str_find ?row ''<td'' (int (length x)) = int ?t"
    unfolding row1 by (rule str_find_skip[where c = "CHR ''<''" and r = "''td''", OF _ _ w(1)]) simp_all
  have f2: "str_find ?row ''<th'' (int (length x)) = - 1
            \<or> int ?t < str_find ?row ''<th'' (int (length x))"
    unfolding row1
    by (rule other_marker_later[where c = "CHR ''<''" and r = "''th''", OF _ _ w(2)]) simp_all
  have row2: "?row = (x @ ?b) @ (''<td'' @ ?a) @ CHR ''>'' # (?ct @ ''</td>'' @ rest)"
    by (simp add: rc)
  have "str_find ?row ''>'' (int (length (x @ ?b))) = int (length (x @ ?b) + length (''<td'' @ ?a))"
    unfolding row2 by (rule find_char_split) (use w(3) in simp)
  then have f3: "str_find ?row ''>'' (int ?t) + 1 = int (?t + 3 + length ?a + 1)"
    by simp
  let ?x' = "x @ ?b @ ''<td'' @ ?a @ ''>''"
  have lx': "length ?x' = ?t + 3 + length ?a + 1" by simp
  have row3: "?row = ?x' @ ?ct @ (''</td>'' @ rest)" by (simp add: rc)
  have f4: "str_find ?row ''</td>'' (int (length ?x')) = int (length ?x' + length ?ct)"
    unfolding row3
    by (rule str_find_skip[where c = "CHR ''<''" and r = "''/td>''", OF _ _ w(4)]) simp_all
  have f5: "slice ?row (int (length ?x')) (int (length ?x' + length ?ct)) = ?ct"
    unfolding row3 by (rule slice_middle)
  have f6: "int (length ?x' + length ?ct) + 5 = int (length (x @ render_cell c))"
    by (simp add: rc)
  have cv: "clean_html (str_strip ?ct) = Some (cell_value c)"
    by (simp add: clean_html_text cell_value_def)
  have n: "int ?t \<noteq> - 1" by simp
  show ?thesis
    apply (subst parse_cells.simps)
    unfolding Let_def f1 f3 lx'[symmetric] f4 f5 f6 cv
    using f2 n by auto
next
  case True
  let ?b = "c_before c" and ?a = "c_attrs c" and ?ct = "c_content c"
  let ?row = "x @ render_cell c @ rest"
  have rc: "render_cell c = ?b @ ''<th'' @ ?a @ ''>'' @ ?ct @ ''</th>''"
    using True by (simp add: render_cell_def open_tag_def close_tag_def)
  have w: "\<not> contains ?b ''<td''" "\<not> contains ?b ''<th''" "CHR ''>'' \<notin> set ?a"
    "\<not> contains ?ct ''</th>''"
    using wf True by (simp_all add: wf_cell_def close_tag_def)
  let ?t = "length x + length ?b"
  have row1: "?row = x @ ?b @ (''<th'' @ ?a @ ''>'' @ ?ct @ ''</th>'' @ rest)"
    by (simp add: rc)
  have f1: "str_find ?row ''<th'' (int (length x)) = int ?t"
    unfolding row1 by (rule str_find_skip[where c = "CHR ''<''" and r = "''th''", OF _ _ w(2)]) simp_all
  have f2: "str_find ?row ''<td'' (int (length x)) = - 1
            \<or> int ?t < str_find ?row ''<td'' (int (length x))"
    unfolding row1
    by (rule other_marker_later[where c = "CHR ''<''" and r = "''td''", OF _ _ w(1)]) simp_all
  have row2: "?row = (x @ ?b) @ (''<th'' @ ?a) @ CHR ''>'' # (?ct @ ''</th>'' @ rest)"
    by (simp add: rc)
  have "str_find ?row ''>'' (int (length (x @ ?b))) = int (length (x @ ?b) + length (''<th'' @ ?a))"
    unfolding row2 by (rule find_char_split) (use w(3) in simp)
  then have f3: "str_find ?row ''>'' (int ?t) + 1 = int (?t + 3 + length ?a + 1)"
    by simp
  let ?x' = "x @ ?b @ ''<th'' @ ?a @ ''>''"
  have lx': "length ?x' = ?t + 3 + length ?a + 1" by simp
  have row3: "?row = ?x' @ ?ct @ (''</th>'' @ rest)" by (simp add: rc)
  have f4: "str_find ?row ''</th>'' (int (length ?x')) = int (length ?x' + length ?ct)"
    unfolding row3
    by (rule str_find_skip[where c = "CHR ''<''" and r = "''/th>''", OF _ _ w(4)]) simp_all
  have f5: "slice ?row (int (length ?x')) (int (length ?x' + length ?ct)) = ?ct"
    unfolding row3 by (rule slice_middle)
  have f6: "int (length ?x' + length ?ct) + 5 = int (length (x @ render_cell c))"
    by (simp add: rc)
  have cv: "clean_html (str_strip ?ct) = Some (cell_value c)"
    by (simp add: clean_html_text cell_value_def)
  have n: "int ?t \<noteq> - 1" by simp
  show ?thesis
    apply (subst parse_cells.simps)
    unfolding Let_def f1 f3 lx'[symmetric] f4 f5 f6 cv
    using f2 n by auto
qed


lemma parse_cells_wf:
  assumes "list_all wf_cell cs" "\<not> contains tail ''<td''" "\<not> contains tail ''<th''"
  shows "parse_cells (x @ concat (map render_cell cs) @ tail) (int (length x)) acc
         = Some (acc @ map cell_value cs)"
  using assms(1)
proof (induction cs arbitrary: x acc)
  case Nil
  have "str_find (x @ tail) ''<td'' (int (length x)) = - 1"
    "str_find (x @ tail) ''<th'' (int (length x)) = - 1"
    by (rule str_find_none_suffix; use assms in simp)+
  then show ?case by (subst parse_cells.simps) simp
next
  case (Cons c cs)
  let ?rest = "concat (map render_cell cs) @ tail"
  have "parse_cells (x @ concat (map render_cell (c # cs)) @ tail) (int (length x)) acc
        = parse_cells (x @ render_cell c @ ?rest) (int (length x)) acc" by simp
  also have "\<dots> = parse_cells (x @ render_cell c @ ?rest) (int (length (x @ render_cell c)))
                      (acc @ [cell_value c])"
    by (rule cell_step) (use Cons.prems in simp)
  also have "\<dots> = parse_cells ((x @ render_cell c) @ ?rest) (int (length (x @ render_cell c)))
                      (acc @ [cell_value c])" by simp
  also have "\<dots> = Some ((acc @ [cell_value c]) @ map cell_value cs)"
    by (rule Cons.IH) (use Cons.prems in simp)
  finally show ?case by simp
qed

lemma row_step:
  assumes wf: "wf_row r"
  shows "parse_rows (x @ render_row r @ rest) (int (length x)) acc
         = parse_rows (x @ render_row r @ rest) (int (length (x @ render_row r)))
             (acc @ [map cell_value (r_cells r)])"
proof -
  let ?g = "r_gap r" and ?R = "row_text r"
  let ?t = "x @ render_row r @ rest"
  have w: "\<not> contains ?g ''<tr''" "prefix ''<tr'' ?R" "\<not> contains ?R ''</tr>''"
    "list_all wf_cell (r_cells r)" "\<not> contains (r_tail r) ''<td''" "\<not> contains (r_tail r) ''<th''"
    using wf by (simp_all add: wf_row_def)
  have t1: "?t = x @ ?g @ (?R @ ''</tr>'' @ rest)" by (simp add: render_row_def)
  have f1: "str_find ?t ''<tr'' (int (length x)) = int (length x + length ?g)"
    unfolding t1
    by (rule str_find_skip[where c = "CHR ''<''" and r = "''tr''", OF _ _ w(1)])
      (use w(2) in \<open>simp_all add: prefix_prefix\<close>)
  have t2: "?t = (x @ ?g) @ ?R @ (''</tr>'' @ rest)" by (simp add: render_row_def)
  have f2: "str_find ?t ''</tr>'' (int (length (x @ ?g))) = int (length (x @ ?g) + length ?R)"
    unfolding t2
    by (rule str_find_skip[where c = "CHR ''<''" and r = "''/tr>''", OF _ _ w(3)]) simp_all
  have f3: "slice ?t (int (length (x @ ?g))) (int (length (x @ ?g) + length ?R)) = ?R"
    unfolding t2 by (rule slice_middle)
  have f4: "int (length (x @ ?g) + length ?R) + 5 = int (length (x @ render_row r))"
    by (simp add: render_row_def)
  have "parse_cells ([] @ concat (map render_cell (r_cells r)) @ r_tail r) (int (length ([] :: string))) []
        = Some ([] @ map cell_value (r_cells r))"
    by (rule parse_cells_wf[OF w(4,5,6)])
  then have f5: "parse_cells ?R 0 [] = Some (map cell_value (r_cells r))"
    by (simp add: row_text_def)
  have l: "length x + length ?g = length (x @ ?g)" by simp
  have n: "int (length (x @ ?g)) \<noteq> - 1" "int (length (x @ ?g) + length ?R) \<noteq> - 1" by simp_all
  show ?thesis
    apply (subst parse_rows.simps)
    unfolding Let_def f1 l f2 f3 f4 f5
    using n by simp
qed

lemma parse_rows_wf:
  assumes "list_all wf_row rs" "\<not> contains tt ''<tr''"
  shows "parse_rows (x @ concat (map render_row rs) @ tt) (int (length x)) acc
         = Some (acc @ grid_of rs)"
  using assms(1)
proof (induction rs arbitrary: x acc)
  case Nil
  have "str_find (x @ tt) ''<tr'' (int (length x)) = - 1"
    by (rule str_find_none_suffix; use assms in simp)
  then show ?case by (subst parse_rows.simps) (simp add: grid_of_def)
next
  case (Cons r rs)
  let ?rest = "concat (map render_row rs) @ tt"
  have "parse_rows (x @ concat (map render_row (r # rs)) @ tt) (int (length x)) acc
        = parse_rows (x @ render_row r @ ?rest) (int (length x)) acc" by simp
  also have "\<dots> = parse_rows (x @ render_row r @ ?rest) (int (length (x @ render_row r)))
                      (acc @ [map cell_value (r_cells r)])"
    by (rule row_step) (use Cons.prems in simp)
  also have "\<dots> = parse_rows ((x @ render_row r) @ ?rest) (int (length (x @ render_row r)))
                      (acc @ [map cell_value (r_cells r)])" by simp
  also have "\<dots> = Some ((acc @ [map cell_value (r_cells r)]) @ grid_of rs)"
    by (rule Cons.IH) (use Cons.prems in simp)
  finally show ?case by (simp add: grid_of_def)
qed

lemma parse_table_wf:
  assumes "wf_table rows ttail"
  shows "parse_table (table_text rows ttail) = Some (grid_of rows)"
proof -
  have w: "list_all wf_row rows" "\<not> contains ttail ''<tr''"
    using assms by (simp_all add: wf_table_def)
  have "\<not> contains (ttail @ ''</table>'') ''<tr''"
    by (rule not_contains_append[where c = "CHR ''<''" and r = "''tr''", OF _ _ w(2)])
      (simp_all, code_simp)
  from parse_rows_wf[OF w(1) this, of "[]" "[]"]
  show ?thesis by (simp add: parse_table_def table_text_def table_body_def)
qed

lemma extract_tables_wf:
  assumes pre: "\<not> contains pre ''<table''" and post: "\<not> contains post ''<table''"
    and body: "prefix ''<table'' body" "\<not> contains body ''</table>''"
  shows "extract_tables (pre @ (body @ ''</table>'') @ post) = Some [body @ ''</table>'']"
proof -
  let ?T = "body @ ''</table>''"
  let ?h = "pre @ ?T @ post"
  have "prefix ''<table'' (?T @ post)" using body(1) by (simp add: prefix_prefix)
  from str_find_skip[where c = "CHR ''<''" and r = "''table''" and x = "[]", OF _ _ pre this]
  have f1': "str_find ?h ''<table'' 0 = int (length pre)" by simp
  have h2: "?h = pre @ body @ (''</table>'' @ post)" by simp
  have f2: "str_find ?h ''</table>'' (int (length pre)) = int (length pre + length body)"
    unfolding h2
    by (rule str_find_skip[where c = "CHR ''<''" and r = "''/table>''", OF _ _ body(2)]) simp_all
  have e8: "int (length pre + length body) + 8 = int (length pre + length ?T)" by simp
  have f3: "slice ?h (int (length pre)) (int (length pre + length body) + 8) = ?T"
    unfolding e8 by (rule slice_middle)
  have e8': "int (length pre + length body) + 8 = int (length (pre @ ?T))" by simp
  have h4: "?h = (pre @ ?T) @ post" by simp
  have f4: "str_find ?h ''<table'' (int (length pre + length body) + 8) = - 1"
    unfolding e8' h4 by (rule str_find_none_suffix) (use post in simp_all)
  have n: "int (length pre) \<noteq> - 1" "int (length pre + length body) \<noteq> - 1" by simp_all
  have "extract_loop ?h 0 [] = extract_loop ?h (int (length pre + length body) + 8) [?T]"
    apply (subst extract_loop.simps)
    unfolding Let_def f1' f2 f3
    using n by simp
  also have "\<dots> = Some [?T]"
    apply (subst extract_loop.simps)
    unfolding Let_def f4
    by simp
  finally show ?thesis by (simp add: extract_tables_def)
qed


lemma clean_text_no_lf: "CHR 0x0A \<notin> set (clean_text t)"
proof -
  have "CHR 0x0A \<notin> set (map (\<lambda>c. if c = CHR 0x0A \<or> c = CHR 0x0D then CHR '' '' else c) (strip_spans t))"
    by auto
  then show ?thesis unfolding clean_text_def using set_str_strip by blast
qed

lemma csv_field_no_lf:
  assumes "CHR 0x0A \<notin> set cell"
  shows "CHR 0x0A \<notin> set (csv_field cell)"
  using assms by (auto simp: csv_field_def str_replace_def split: if_splits)

lemma str_join_no_lf:
  assumes "list_all (\<lambda>f. CHR 0x0A \<notin> set f) fs"
  shows "CHR 0x0A \<notin> set (str_join '','' fs)"
  using assms by (induction "'',''" fs rule: str_join.induct) auto

lemma csv_line_no_lf:
  assumes "list_all (\<lambda>c. CHR 0x0A \<notin> set c) row"
  shows "CHR 0x0A \<notin> set (csv_line row)"
  unfolding csv_line_def
  by (rule str_join_no_lf) (use assms in \<open>auto simp: list_all_iff csv_field_no_lf\<close>)

lemma csv_text_lines:
  assumes "list_all (list_all (\<lambda>c. CHR 0x0A \<notin> set c)) grid"
  shows "length (filter (\<lambda>c. c = CHR 0x0A) (csv_text grid)) = length grid"
  using assms
proof (induction grid)
  case Nil
  then show ?case by (simp add: csv_text_def)
next
  case (Cons row grid)
  have "filter (\<lambda>c. c = CHR 0x0A) (csv_line row) = []"
    using csv_line_no_lf[of row] Cons.prems by (auto simp: filter_empty_conv)
  then show ?case using Cons by (simp add: csv_text_def)
qed

lemma grid_of_no_lf: "list_all (list_all (\<lambda>c. CHR 0x0A \<notin> set c)) (grid_of rows)"
  by (auto simp: grid_of_def list_all_iff cell_value_def clean_text_no_lf)

text \<open>
  Claim C1, as amended. Take a well-formed document with one table (\<open>wf_table\<close>, no
  \<open><table\<close> before or after the table) that has at least one row. Then the extractor finds
  that table and no other, the parser returns a grid with one row per \<open><tr\<close> block, each the
  cleaned contents of the row's cells, and the run returns having written one file,
  \<open>output_1.csv\<close>, the CSV text of the grid, which has one line feed per row.
\<close>

theorem main_single_table:
  "length argv = 2
   \<and> fetch_html e (argv ! 1) w = (Inr (pre @ table_text rows ttail @ post), w1)
   \<and> \<not> contains pre ''<table'' \<and> \<not> contains post ''<table''
   \<and> wf_table rows ttail \<and> rows \<noteq> [] \<longrightarrow>
     extract_tables (pre @ table_text rows ttail @ post) = Some [table_text rows ttail]
     \<and> parse_table (table_text rows ttail) = Some (grid_of rows)
     \<and> length (grid_of rows) = length rows
     \<and> (\<exists>w2. main e argv w = Some (Returned, w2)
           \<and> writes w2 = writes w1 @ [(''output_1.csv'', csv_text (grid_of rows))])
     \<and> length (filter (\<lambda>c. c = CHR 0x0A) (csv_text (grid_of rows))) = length rows"
proof (intro impI)
  assume h: "length argv = 2
   \<and> fetch_html e (argv ! 1) w = (Inr (pre @ table_text rows ttail @ post), w1)
   \<and> \<not> contains pre ''<table'' \<and> \<not> contains post ''<table''
   \<and> wf_table rows ttail \<and> rows \<noteq> []"
  let ?T = "table_text rows ttail"
  have body: "prefix ''<table'' (table_body rows ttail)" "\<not> contains (table_body rows ttail) ''</table>''"
    using h by (simp_all add: wf_table_def)
  have 1: "extract_tables (pre @ ?T @ post) = Some [?T]"
    unfolding table_text_def using h by (intro extract_tables_wf body) simp_all
  have 2: "parse_table ?T = Some (grid_of rows)"
    using h by (intro parse_table_wf) simp
  have 3: "length (grid_of rows) = length rows" by (simp add: grid_of_def)
  have ne: "grid_of rows \<noteq> []" using h by (simp add: grid_of_def)
  have "list_all2 (\<lambda>t g. parse_table t = Some g) [?T] [grid_of rows]" using 2 by simp
  from main_tables[OF _ _ 1 _ this, of argv e w w1] h ne
  have 4: "\<exists>w2. main e argv w = Some (Returned, w2)
           \<and> writes w2 = writes w1 @ [(''output_1.csv'', csv_text (grid_of rows))]"
    by (simp add: str_nat_digits)
  have 5: "length (filter (\<lambda>c. c = CHR 0x0A) (csv_text (grid_of rows))) = length rows"
    using csv_text_lines[OF grid_of_no_lf, of rows] 3 by simp
  show "extract_tables (pre @ ?T @ post) = Some [?T]
     \<and> parse_table ?T = Some (grid_of rows)
     \<and> length (grid_of rows) = length rows
     \<and> (\<exists>w2. main e argv w = Some (Returned, w2)
           \<and> writes w2 = writes w1 @ [(''output_1.csv'', csv_text (grid_of rows))])
     \<and> length (filter (\<lambda>c. c = CHR 0x0A) (csv_text (grid_of rows))) = length rows"
    using 1 2 3 4 5 by blast
qed


theorem main_single_table_witness:
  "wf_table
     [\<lparr>r_gap = ''<table class=x>'',
       r_cells = [\<lparr>c_before = ''<tr>'', c_header = True, c_attrs = [], c_content = ''H''\<rparr>,
                  \<lparr>c_before = '' '', c_header = False, c_attrs = '' id=y'', c_content = '' a <b>b</b>''\<rparr>],
       r_tail = []\<rparr>,
      \<lparr>r_gap = '' '',
       r_cells = [\<lparr>c_before = ''<tr>'', c_header = False, c_attrs = [], c_content = ''c''\<rparr>],
       r_tail = '' ''\<rparr>] []
   \<and> \<not> contains ''<html>'' ''<table'' \<and> \<not> contains ''</html>'' ''<table''
   \<and> ''<html>'' @ table_text
     [\<lparr>r_gap = ''<table class=x>'',
       r_cells = [\<lparr>c_before = ''<tr>'', c_header = True, c_attrs = [], c_content = ''H''\<rparr>,
                  \<lparr>c_before = '' '', c_header = False, c_attrs = '' id=y'', c_content = '' a <b>b</b>''\<rparr>],
       r_tail = []\<rparr>,
      \<lparr>r_gap = '' '',
       r_cells = [\<lparr>c_before = ''<tr>'', c_header = False, c_attrs = [], c_content = ''c''\<rparr>],
       r_tail = '' ''\<rparr>] [] @ ''</html>''
     = ''<html><table class=x><tr><th>H</th> <td id=y> a <b>b</b></td></tr> <tr><td>c</td> </tr></table></html>''
   \<and> parse_table ''<table class=x><tr><th>H</th> <td id=y> a <b>b</b></td></tr> <tr><td>c</td> </tr></table>''
       = Some [[''H'', ''a b''], [''c'']]
   \<and> (\<exists>w2. main \<lparr>url_get = (\<lambda>u. None), path_exists = (\<lambda>p. True),
                  file_read = (\<lambda>p. Some ''<html><table class=x><tr><th>H</th> <td id=y> a <b>b</b></td></tr> <tr><td>c</td> </tr></table></html>'')\<rparr>
              [''project1.py'', ''a.html''] \<lparr>writes = [], printed = []\<rparr> = Some (Returned, w2)
          \<and> writes w2 = [(''output_1.csv'', csv_text [[''H'', ''a b''], [''c'']])])
   \<and> length (filter (\<lambda>c. c = CHR 0x0A) (csv_text [[''H'', ''a b''], [''c'']])) = 2"
proof -
  let ?rows = "[\<lparr>r_gap = ''<table class=x>'',
       r_cells = [\<lparr>c_before = ''<tr>'', c_header = True, c_attrs = [], c_content = ''H''\<rparr>,
                  \<lparr>c_before = '' '', c_header = False, c_attrs = '' id=y'', c_content = '' a <b>b</b>''\<rparr>],
       r_tail = []\<rparr>,
      \<lparr>r_gap = '' '',
       r_cells = [\<lparr>c_before = ''<tr>'', c_header = False, c_attrs = [], c_content = ''c''\<rparr>],
       r_tail = '' ''\<rparr>]"
  let ?doc = "''<html><table class=x><tr><th>H</th> <td id=y> a <b>b</b></td></tr> <tr><td>c</td> </tr></table></html>''"
  let ?T = "''<table class=x><tr><th>H</th> <td id=y> a <b>b</b></td></tr> <tr><td>c</td> </tr></table>''"
  let ?e = "\<lparr>url_get = (\<lambda>u. None), path_exists = (\<lambda>p. True), file_read = (\<lambda>p. Some ?doc)\<rparr>"
  let ?w = "\<lparr>writes = [], printed = []\<rparr>"
  have wf: "wf_table ?rows []" by code_simp
  have pre: "\<not> contains ''<html>'' ''<table''" and post: "\<not> contains ''</html>'' ''<table''"
    by code_simp+
  have T: "table_text ?rows [] = ?T"
    by (simp add: table_text_def table_body_def render_row_def row_text_def render_cell_def
        open_tag_def close_tag_def)
  have doc: "''<html>'' @ table_text ?rows [] @ ''</html>'' = ?doc"
    unfolding T by simp
  have g: "grid_of ?rows = [[''H'', ''a b''], [''c'']]" by code_simp
  have f: "fetch_html ?e ([''project1.py'', ''a.html''] ! 1) ?w
           = (Inr (''<html>'' @ table_text ?rows [] @ ''</html>''), ?w)"
    unfolding doc by (simp add: fetch_html_def)
  have ne: "?rows \<noteq> []" by simp
  have len: "length [''project1.py'', ''a.html''] = 2" by simp
  note t = main_single_table[of "[''project1.py'', ''a.html'']" ?e ?w "''<html>''" ?rows "[]"
      "''</html>''" ?w, rule_format, OF conjI[OF len conjI[OF f conjI[OF pre conjI[OF post conjI[OF wf ne]]]]]]
  have 2: "parse_table ?T = Some [[''H'', ''a b''], [''c'']]"
    using t[THEN conjunct2, THEN conjunct1] unfolding T g .
  have 4: "\<exists>w2. main ?e [''project1.py'', ''a.html''] ?w = Some (Returned, w2)
          \<and> writes w2 = [(''output_1.csv'', csv_text [[''H'', ''a b''], [''c'']])]"
    using t[THEN conjunct2, THEN conjunct2, THEN conjunct2, THEN conjunct1] unfolding g by simp
  have 5: "length (filter (\<lambda>c. c = CHR 0x0A) (csv_text [[''H'', ''a b''], [''c'']])) = 2"
    using t[THEN conjunct2, THEN conjunct2, THEN conjunct2, THEN conjunct2] unfolding g by simp
  show ?thesis
    by (intro conjI) (rule wf pre post doc 2 4 5)+
qed

text \<open>
  Claim C1 as stated promises one file for every well-formed document with one table. A
  table with no row is such a document, and for it nothing is written: \<open>main\<close> saves only
  the tables with at least one row.
\<close>

theorem main_empty_table_counterexample:
  "wf_table [] ''<table>'' \<and> table_text [] ''<table>'' = ''<table></table>''
   \<and> extract_tables ''<table></table>'' = Some [''<table></table>'']
   \<and> parse_table ''<table></table>'' = Some []
   \<and> main \<lparr>url_get = (\<lambda>u. None), path_exists = (\<lambda>p. True),
            file_read = (\<lambda>p. Some ''<table></table>'')\<rparr>
        [''project1.py'', ''a.html''] \<lparr>writes = [], printed = []\<rparr>
      = Some (Returned, \<lparr>writes = [], printed = []\<rparr>)"
  by code_simp

end
